theory Spec2Isabelle
  imports Main "HOL-Library.Word"
begin

unbundle bit_operations_syntax

section \<open>C data, the environment and observable events\<close>

text \<open>
  The three IPC demonstration programs (POSIX shared memory, anonymous pipe, named FIFO)
  exchange one count-prefixed array of \<^verbatim>\<open>int\<close> between a child (producer) and its parent
  (consumer). A C \<^verbatim>\<open>int\<close> is a 32-bit word read with \<open>sint\<close>; \<^verbatim>\<open>size_t\<close> arithmetic is
  written out modulo \<open>2 ^ 64\<close>; file descriptors, process ids and return codes are
  integers. Everything a system call decides is taken from an environment record, so that
  every branch of the source is a branch of the model.
\<close>

type_synonym cint = "32 word"
type_synonym byte = "8 word"
type_synonym stdin = "cint option list"

datatype exit_status = EXIT_SUCCESS | EXIT_FAILURE

datatype flow = Returns | Exits exit_status | Faults | Hangs

datatype pointer = NULL | MAP_FAILED | Mapped

datatype errno = EEXIST | ENOSPC | EFAULT | ENOMEM | EPERM | EACCES

datatype event =
    Stdout string
  | Stdout_int cint
  | Stdout_newline
  | Stderr string
  | Perror string
  | Sys_wait int
  | Shm_load nat
  | Shm_store nat cint
  | Sys_munmap
  | Sys_close
  | Sys_shm_unlink
  | Sys_unlink
  | Sys_malloc nat
  | Sys_free
  | Sys_open
  | Call_write_all nat
  | Call_read_all nat
  | Sys_shm_open
  | Sys_ftruncate
  | Sys_mmap
  | Sys_pipe
  | Sys_mkfifo
  | Sys_fork

record env =
  shm_open_ret :: int
  ftruncate_ret :: int
  mmap_ret :: pointer
  munmap_ret :: int
  close_ret :: int
  pipe_ret :: int
  mkfifo_fail :: "errno option"
  open_child_ret :: int
  open_parent_ret :: int
  fork_ret :: int
  wait_ret :: int
  malloc_ok :: "nat \<Rightarrow> bool"
  write_sched :: "nat \<Rightarrow> int"
  read_sched :: "nat \<Rightarrow> int"

definition BUFFER_SIZE :: nat where
  "BUFFER_SIZE = 1024"

definition sizeof_int :: nat where
  "sizeof_int = 4"

definition SHM_NAME :: string where
  "SHM_NAME = ''/my_shared_memory''"

definition FIFO_PATH :: string where
  "FIFO_PATH = ''/tmp/my_named_pipe''"

text \<open>\<^verbatim>\<open>scanf("%d", &x)\<close>: one token of standard input; \<open>None\<close> is a token that is not a
  number. The call returns 1 and stores the value, or fails at end of input or on such a
  token.\<close>

fun scanf_d :: "stdin \<Rightarrow> (cint \<times> stdin) option" where
  "scanf_d [] = None"
| "scanf_d (None # rest) = None"
| "scanf_d (Some v # rest) = Some (v, rest)"

text \<open>\<^verbatim>\<open>num * sizeof(int)\<close> and \<^verbatim>\<open>(size_t)num\<close>: the \<^verbatim>\<open>int\<close> is converted to the 64-bit
  \<^verbatim>\<open>size_t\<close>, so a negative count becomes a huge size.\<close>

definition size_bytes :: "cint \<Rightarrow> nat" where
  "size_bytes num = nat ((sint num * int sizeof_int) mod 2 ^ 64)"

definition size_of_count :: "cint \<Rightarrow> nat" where
  "size_of_count num = nat (sint num mod 2 ^ 64)"

text \<open>\<^verbatim>\<open>check_result(int result, ...)\<close> receives the \<^verbatim>\<open>ssize_t\<close> of \<open>read_all\<close> narrowed
  to \<^verbatim>\<open>int\<close>.\<close>

definition to_int32 :: "int \<Rightarrow> int" where
  "to_int32 r = signed_take_bit 31 r"

subsection \<open>Wire format: the object representation of an int, host byte order\<close>

definition int_bytes :: "cint \<Rightarrow> byte list" where
  "int_bytes v = [ucast v, ucast (drop_bit 8 v), ucast (drop_bit 16 v), ucast (drop_bit 24 v)]"

definition bytes_int :: "byte list \<Rightarrow> cint" where
  "bytes_int bs =
     (case bs of
        b0 # b1 # b2 # b3 # rest \<Rightarrow>
          ucast b0 OR push_bit 8 (ucast b1) OR push_bit 16 (ucast b2) OR push_bit 24 (ucast b3)
      | _ \<Rightarrow> 0)"

definition arr_bytes :: "cint list \<Rightarrow> byte list" where
  "arr_bytes arr = concat (map int_bytes arr)"

fun bytes_arr :: "byte list \<Rightarrow> cint list" where
  "bytes_arr (b0 # b1 # b2 # b3 # rest) = bytes_int [b0, b1, b2, b3] # bytes_arr rest"
| "bytes_arr _ = []"

section \<open>write\_all and read\_all\<close>

text \<open>
  The primitive \<^verbatim>\<open>write(fd, ptr + total, bytes - total)\<close> is a function of the kernel
  object behind \<open>fd\<close>, the bytes at \<open>ptr + total\<close> and the requested count; it yields
  the call's result (an \<^verbatim>\<open>ssize_t\<close>) and the new kernel state.
  \<^verbatim>\<open>read(fd, ptr + total, bytes - total)\<close> yields the result and the bytes it stored at
  \<open>ptr + total\<close>.

  \<open>bytes\<close> and \<open>total\<close> are \<^verbatim>\<open>size_t\<close>, 64 bits without sign: \<^verbatim>\<open>total += written\<close>
  converts the positive \<^verbatim>\<open>ssize_t\<close> to \<^verbatim>\<open>size_t\<close> and adds modulo \<open>2 ^ 64\<close>, and
  \<^verbatim>\<open>return total\<close> converts the \<^verbatim>\<open>size_t\<close> to the 64-bit signed \<^verbatim>\<open>ssize_t\<close>: a total
  of \<open>2 ^ 63\<close> or more is returned as a negative number, and \<open>SIZE_MAX\<close> as \<open>-1\<close>.
\<close>

definition SIZE_MAX :: nat where
  "SIZE_MAX = 2 ^ 64 - 1"

definition SSIZE_MAX :: nat where
  "SSIZE_MAX = 2 ^ 63 - 1"

definition size_add :: "nat \<Rightarrow> int \<Rightarrow> nat" where
  "size_add tot written = nat ((int tot + written) mod 2 ^ 64)"

definition ssize_of :: "nat \<Rightarrow> int" where
  "ssize_of tot =
     (if tot mod 2 ^ 64 < 2 ^ 63 then int (tot mod 2 ^ 64) else int (tot mod 2 ^ 64) - 2 ^ 64)"

type_synonym 's write_prim = "'s \<Rightarrow> byte list \<Rightarrow> nat \<Rightarrow> int \<times> 's"
type_synonym 's read_prim = "'s \<Rightarrow> nat \<Rightarrow> (int \<times> byte list) \<times> 's"

text \<open>With a primitive that reports more than it was asked for, \<open>total\<close> can wrap around
  and the loop need not end: the loops are partial, and \<open>None\<close> is a run that never
  returns.\<close>

partial_function (option) write_all_loop ::
  "'s write_prim \<Rightarrow> byte list \<Rightarrow> nat \<Rightarrow> nat \<Rightarrow> 's \<Rightarrow> (int \<times> 's) option" where
  "write_all_loop wr buffer bytes tot s =
     (if tot < bytes then
        (case wr s (drop tot buffer) (bytes - tot) of
           (written, s') \<Rightarrow>
             if written \<le> 0 then Some (- 1, s')
             else write_all_loop wr buffer bytes (size_add tot written) s')
      else Some (ssize_of tot, s))"

definition write_all :: "'s write_prim \<Rightarrow> 's \<Rightarrow> byte list \<Rightarrow> nat \<Rightarrow> (int \<times> 's) option" where
  "write_all wr s buffer bytes = write_all_loop wr buffer bytes 0 s"

partial_function (option) read_all_loop ::
  "'s read_prim \<Rightarrow> nat \<Rightarrow> nat \<Rightarrow> byte list \<Rightarrow> 's \<Rightarrow> (int \<times> byte list \<times> 's) option" where
  "read_all_loop rd bytes tot buffer s =
     (if tot < bytes then
        (case rd s (bytes - tot) of
           ((r, got), s') \<Rightarrow>
             if r \<le> 0 then Some (- 1, buffer, s')
             else read_all_loop rd bytes (size_add tot r) (buffer @ got) s')
      else Some (ssize_of tot, buffer, s))"

definition read_all :: "'s read_prim \<Rightarrow> 's \<Rightarrow> nat \<Rightarrow> (int \<times> byte list \<times> 's) option" where
  "read_all rd s bytes = read_all_loop rd bytes 0 [] s"

text \<open>A primitive that also records the result of every call, to speak about the single
  calls a run of the loop makes.\<close>

definition logged_write :: "'s write_prim \<Rightarrow> ('s \<times> int list) write_prim" where
  "logged_write wr = (\<lambda>(s, log) src n. case wr s src n of (r, s') \<Rightarrow> (r, (s', log @ [r])))"

definition logged_read :: "'s read_prim \<Rightarrow> ('s \<times> int list) read_prim" where
  "logged_read rd = (\<lambda>(s, log) n. case rd s n of (rg, s') \<Rightarrow> (rg, (s', log @ [fst rg])))"

text \<open>The contract of \<^verbatim>\<open>write(2)\<close> and \<^verbatim>\<open>read(2)\<close>: never more than requested.\<close>

definition write_contract :: "'s write_prim \<Rightarrow> bool" where
  "write_contract wr = (\<forall>s src n. fst (wr s src n) \<le> int n)"

definition read_contract :: "'s read_prim \<Rightarrow> bool" where
  "read_contract rd = (\<forall>s n. fst (fst (rd s n)) \<le> int n)"

text \<open>The result of a call is an \<^verbatim>\<open>ssize_t\<close>: it never exceeds \<open>SSIZE_MAX\<close>.\<close>

definition write_ssize :: "'s write_prim \<Rightarrow> bool" where
  "write_ssize wr = (\<forall>s src n. fst (wr s src n) \<le> int SSIZE_MAX)"

definition read_ssize :: "'s read_prim \<Rightarrow> bool" where
  "read_ssize rd = (\<forall>s n. fst (fst (rd s n)) \<le> int SSIZE_MAX)"

definition write_progress :: "'s write_prim \<Rightarrow> bool" where
  "write_progress wr = (\<forall>s src n. 0 < n \<longrightarrow> 0 < fst (wr s src n))"

definition read_progress :: "'s read_prim \<Rightarrow> bool" where
  "read_progress rd = (\<forall>s n. 0 < n \<longrightarrow> 0 < fst (fst (rd s n)))"

subsection \<open>The kernel side of a pipe or FIFO\<close>

text \<open>
  A stream end is the number of primitive calls made on it so far and the bytes in flight.
  The environment's schedule decides each call: a value \<open>\<le> 0\<close> is returned as the call's
  failure; a positive value caps the bytes the kernel moves in that call. The reader runs
  after the writer has closed its end, so an empty stream reads as end of file.
\<close>

type_synonym stream = "nat \<times> byte list"

definition sys_write :: "(nat \<Rightarrow> int) \<Rightarrow> stream write_prim" where
  "sys_write sched = (\<lambda>(k, flight) src n.
     if sched k \<le> 0 then (sched k, (Suc k, flight))
     else (int (min (nat (sched k)) n), (Suc k, flight @ take (min (nat (sched k)) n) src)))"

definition sys_read :: "(nat \<Rightarrow> int) \<Rightarrow> stream read_prim" where
  "sys_read sched = (\<lambda>(k, flight) n.
     if sched k \<le> 0 then ((sched k, []), (Suc k, flight))
     else ((int (min (min (nat (sched k)) n) (length flight)),
            take (min (nat (sched k)) n) flight),
           (Suc k, drop (min (nat (sched k)) n) flight)))"

section \<open>The shared-memory program\<close>

text \<open>
  The mapping is \<open>BUFFER_SIZE\<close> bytes seen as an array of \<^verbatim>\<open>int\<close>: slot \<open>i\<close> lies in
  it when its four bytes end at or before byte 1024. An access through a pointer that is
  not a mapping, or outside it, is a fault. The namespace of shared-memory names is a set;
  \<^verbatim>\<open>shm_unlink\<close> removes a name that is there and fails otherwise.
\<close>

record shm_world =
  segment :: "nat \<Rightarrow> cint"
  shm_names :: "string set"

definition in_segment :: "nat \<Rightarrow> bool" where
  "in_segment i = (i * sizeof_int + sizeof_int \<le> BUFFER_SIZE)"

definition shm_load :: "pointer \<Rightarrow> (nat \<Rightarrow> cint) \<Rightarrow> nat \<Rightarrow> cint option" where
  "shm_load ptr seg i = (if ptr = Mapped \<and> in_segment i then Some (seg i) else None)"

definition shm_store :: "pointer \<Rightarrow> (nat \<Rightarrow> cint) \<Rightarrow> nat \<Rightarrow> cint \<Rightarrow> (nat \<Rightarrow> cint) option" where
  "shm_store ptr seg i v = (if ptr = Mapped \<and> in_segment i then Some (seg(i := v)) else None)"

definition sys_shm_unlink :: "string \<Rightarrow> string set \<Rightarrow> int \<times> string set" where
  "sys_shm_unlink name names = (if name \<in> names then (0, names - {name}) else (- 1, names))"

text \<open>\<^verbatim>\<open>(int)(BUFFER_SIZE / sizeof(int)) - 1\<close>\<close>

definition shm_limit :: int where
  "shm_limit = int (BUFFER_SIZE div sizeof_int) - 1"

definition cleanup_shm :: "env \<Rightarrow> pointer \<Rightarrow> int \<Rightarrow> int \<Rightarrow> shm_world \<Rightarrow> event list \<times> shm_world" where
  "cleanup_shm env ptr shm_fd unlink_shm w =
     (let unmap = (if ptr \<noteq> NULL \<and> ptr \<noteq> MAP_FAILED
                   then Sys_munmap # (if munmap_ret env \<noteq> 0 then [Perror ''munmap''] else [])
                   else []);
          closing = (if shm_fd \<noteq> - 1
                     then Sys_close # (if close_ret env \<noteq> 0 then [Perror ''close''] else [])
                     else [])
      in if unlink_shm \<noteq> 0 then
           (case sys_shm_unlink SHM_NAME (shm_names w) of
              (r, names') \<Rightarrow>
                (unmap @ closing @ Sys_shm_unlink # (if r \<noteq> 0 then [Perror ''shm_unlink''] else []),
                 w\<lparr>shm_names := names'\<rparr>))
         else (unmap @ closing, w))"

text \<open>The child's loop \<^verbatim>\<open>for (int i = 0; i < num; i++) scanf("%d", &shm_data[i + 1])\<close>.\<close>

function child_store_loop ::
  "env \<Rightarrow> pointer \<Rightarrow> int \<Rightarrow> nat \<Rightarrow> nat \<Rightarrow> stdin \<Rightarrow> shm_world \<Rightarrow> flow \<times> event list \<times> shm_world" where
  "child_store_loop env ptr shm_fd i num inp w =
     (if i < num then
        (case scanf_d inp of
           None \<Rightarrow>
             (case cleanup_shm env ptr shm_fd 0 w of
                (cs, w') \<Rightarrow> (Exits EXIT_FAILURE, Stderr ''Invalid input.'' # cs, w'))
         | Some (v, rest) \<Rightarrow>
             (case shm_store ptr (segment w) (i + 1) v of
                None \<Rightarrow> (Faults, [], w)
              | Some seg' \<Rightarrow>
                  (case child_store_loop env ptr shm_fd (i + 1) num rest (w\<lparr>segment := seg'\<rparr>) of
                     (f, es, w') \<Rightarrow> (f, Shm_store (i + 1) v # es, w'))))
      else (Returns, [], w))"
  by pat_completeness auto
termination
  by (relation "measure (\<lambda>(env, ptr, shm_fd, i, num, inp, w). num - i)") auto

definition child_process_shm ::
  "env \<Rightarrow> pointer \<Rightarrow> int \<Rightarrow> stdin \<Rightarrow> shm_world \<Rightarrow> flow \<times> event list \<times> shm_world" where
  "child_process_shm env ptr shm_fd inp w =
     (case scanf_d inp of
        None \<Rightarrow>
          (case cleanup_shm env ptr shm_fd 0 w of
             (cs, w') \<Rightarrow>
               (Exits EXIT_FAILURE,
                [Stdout ''Enter number of elements: '', Stderr ''Invalid input.''] @ cs, w'))
      | Some (num, rest) \<Rightarrow>
          if sint num \<le> 0 \<or> sint num > shm_limit then
            (case cleanup_shm env ptr shm_fd 0 w of
               (cs, w') \<Rightarrow>
                 (Exits EXIT_FAILURE,
                  [Stdout ''Enter number of elements: '', Stderr ''0 < num < 256''] @ cs, w'))
          else
            (case shm_store ptr (segment w) 0 num of
               None \<Rightarrow> (Faults, [Stdout ''Enter number of elements: ''], w)
             | Some seg' \<Rightarrow>
                 (case child_store_loop env ptr shm_fd 0 (nat (sint num)) rest (w\<lparr>segment := seg'\<rparr>) of
                    (f, es, w1) \<Rightarrow>
                      if f \<noteq> Returns then
                        (f, [Stdout ''Enter number of elements: '', Shm_store 0 num,
                             Stdout ''Enter %d numbers: ''] @ es, w1)
                      else
                        (case cleanup_shm env ptr shm_fd 0 w1 of
                           (cs, w2) \<Rightarrow>
                             (Returns,
                              [Stdout ''Enter number of elements: '', Shm_store 0 num,
                               Stdout ''Enter %d numbers: ''] @ es @ cs, w2)))))"

text \<open>The parent's loop \<^verbatim>\<open>for (int i = 0; i < num; i++) printf("%d ", shm_data[i + 1])\<close>.\<close>

function parent_print_loop :: "pointer \<Rightarrow> (nat \<Rightarrow> cint) \<Rightarrow> nat \<Rightarrow> nat \<Rightarrow> flow \<times> event list" where
  "parent_print_loop ptr seg i num =
     (if i < num then
        (case shm_load ptr seg (i + 1) of
           None \<Rightarrow> (Faults, [])
         | Some v \<Rightarrow>
             (case parent_print_loop ptr seg (i + 1) num of
                (f, es) \<Rightarrow> (f, Shm_load (i + 1) # Stdout_int v # es)))
      else (Returns, []))"
  by pat_completeness auto
termination
  by (relation "measure (\<lambda>(ptr, seg, i, num). num - i)") auto

definition parent_process_shm ::
  "env \<Rightarrow> pointer \<Rightarrow> int \<Rightarrow> shm_world \<Rightarrow> flow \<times> event list \<times> shm_world" where
  "parent_process_shm env ptr shm_fd w =
     (if wait_ret env \<noteq> 0 then
        (case cleanup_shm env ptr shm_fd 1 w of
           (cs, w') \<Rightarrow> (Exits EXIT_FAILURE, [Sys_wait (wait_ret env), Perror ''wait''] @ cs, w'))
      else
        (case shm_load ptr (segment w) 0 of
           None \<Rightarrow> (Faults, [Sys_wait (wait_ret env)], w)
         | Some num \<Rightarrow>
             if sint num \<le> 0 \<or> sint num > shm_limit then
               (case cleanup_shm env ptr shm_fd 1 w of
                  (cs, w') \<Rightarrow>
                    (Exits EXIT_FAILURE,
                     [Sys_wait (wait_ret env), Shm_load 0,
                      Stderr ''Invalid number of elements in shared memory''] @ cs, w'))
             else
               (case parent_print_loop ptr (segment w) 0 (nat (sint num)) of
                  (f, es) \<Rightarrow>
                    if f \<noteq> Returns then (f, [Sys_wait (wait_ret env), Shm_load 0] @ es, w)
                    else
                      (case cleanup_shm env ptr shm_fd 1 w of
                         (cs, w') \<Rightarrow>
                           (Returns,
                            [Sys_wait (wait_ret env), Shm_load 0] @ es @ Stdout_newline # cs,
                            w')))))"

text \<open>
  \<open>main\<close>. After a successful \<^verbatim>\<open>fork\<close> two processes continue from the same point: the
  child sees \<open>pid = 0\<close>, the parent sees the child's process id. The parent's first
  action is \<^verbatim>\<open>wait\<close>, which blocks until the child has terminated, so the parent's
  continuation runs on the world the child leaves. The result is the parent's exit and
  trace, the child's (when there is one) and the final world.
\<close>

definition main_return :: "flow \<Rightarrow> flow" where
  "main_return f = (if f = Returns then Exits EXIT_SUCCESS else f)"

definition after_fork_shm ::
  "env \<Rightarrow> int \<Rightarrow> pointer \<Rightarrow> int \<Rightarrow> stdin \<Rightarrow> shm_world \<Rightarrow> flow \<times> event list \<times> shm_world" where
  "after_fork_shm env pid ptr shm_fd inp w =
     (if pid = 0 then child_process_shm env ptr shm_fd inp w
      else parent_process_shm env ptr shm_fd w)"

definition main_shm ::
  "env \<Rightarrow> stdin \<Rightarrow> shm_world \<Rightarrow> (flow \<times> event list) \<times> (flow \<times> event list) option \<times> shm_world" where
  "main_shm env inp w =
     (if shm_open_ret env = - 1 then
        ((Exits EXIT_FAILURE, [Sys_shm_open, Perror ''shm_open'']), None, w)
      else if ftruncate_ret env = - 1 then
        (case cleanup_shm env NULL (shm_open_ret env) 1
                (w\<lparr>shm_names := insert SHM_NAME (shm_names w)\<rparr>) of
           (cs, w') \<Rightarrow>
             ((Exits EXIT_FAILURE, [Sys_shm_open, Sys_ftruncate, Perror ''ftruncate''] @ cs),
              None, w'))
      else if mmap_ret env = MAP_FAILED then
        ((Exits EXIT_FAILURE, [Sys_shm_open, Sys_ftruncate, Sys_mmap, Perror ''mmap'']),
         None, w\<lparr>shm_names := insert SHM_NAME (shm_names w)\<rparr>)
      else if fork_ret env = - 1 then
        (case cleanup_shm env (mmap_ret env) (shm_open_ret env) 1
                (w\<lparr>shm_names := insert SHM_NAME (shm_names w)\<rparr>) of
           (cs, w') \<Rightarrow>
             ((Exits EXIT_FAILURE,
               [Sys_shm_open, Sys_ftruncate, Sys_mmap, Sys_fork, Perror ''fork''] @ cs),
              None, w'))
      else
        (case after_fork_shm env 0 (mmap_ret env) (shm_open_ret env) inp
                (w\<lparr>shm_names := insert SHM_NAME (shm_names w)\<rparr>) of
           (cf, ce, w1) \<Rightarrow>
             (case after_fork_shm env (fork_ret env) (mmap_ret env) (shm_open_ret env) inp w1 of
                (pf, pe, w2) \<Rightarrow>
                  ((main_return pf, [Sys_shm_open, Sys_ftruncate, Sys_mmap, Sys_fork] @ pe),
                   Some (main_return cf, ce), w2))))"

section \<open>The anonymous-pipe program\<close>

text \<open>\<^verbatim>\<open>(int)(BUFFER_SIZE / sizeof(int))\<close>\<close>

definition pipe_limit :: int where
  "pipe_limit = int (BUFFER_SIZE div sizeof_int)"

text \<open>A process ends by returning from its role (\<open>Returns\<close>), by \<^verbatim>\<open>exit\<close>, or by a fault; a
  process whose call of \<open>write_all\<close> or \<open>read_all\<close> never returns \<open>Hangs\<close> in that call.\<close>

text \<open>\<^verbatim>\<open>for (size_t i = 0; i < (size_t)num; i++) scanf("%d", &arr[i])\<close>: the array filled so
  far is the list \<open>arr\<close>, and \<open>arr[i]\<close> is its next element.\<close>

function scan_loop :: "nat \<Rightarrow> nat \<Rightarrow> stdin \<Rightarrow> cint list \<Rightarrow> cint list option" where
  "scan_loop i n inp arr =
     (if i < n then
        (case scanf_d inp of
           None \<Rightarrow> None
         | Some (v, rest) \<Rightarrow> scan_loop (i + 1) n rest (arr @ [v]))
      else Some arr)"
  by pat_completeness auto
termination
  by (relation "measure (\<lambda>(i, n, inp, arr). n - i)") auto

text \<open>\<^verbatim>\<open>for (size_t i = 0; i < (size_t)num; i++) printf("%d ", arr[i])\<close>; reading past the
  bytes received is a fault.\<close>

function print_loop :: "nat \<Rightarrow> nat \<Rightarrow> cint list \<Rightarrow> flow \<times> event list" where
  "print_loop i n arr =
     (if i < n then
        (if i < length arr then
           (case print_loop (i + 1) n arr of (f, es) \<Rightarrow> (f, Stdout_int (arr ! i) # es))
         else (Faults, []))
      else (Returns, []))"
  by pat_completeness auto
termination
  by (relation "measure (\<lambda>(i, n, arr). n - i)") auto

definition child_process_pipe :: "env \<Rightarrow> stdin \<Rightarrow> byte list \<Rightarrow> flow \<times> event list \<times> byte list" where
  "child_process_pipe env inp flight =
     (case scanf_d inp of
        None \<Rightarrow>
          (Exits EXIT_FAILURE, [Stdout ''Enter number of elements: '', Stderr ''Invalid input.''],
           flight)
      | Some (num, rest) \<Rightarrow>
          if sint num \<le> 0 \<or> sint num > pipe_limit then
            (Exits EXIT_FAILURE, [Stdout ''Enter number of elements: '', Stderr ''0 < num < 257''],
             flight)
          else if \<not> malloc_ok env (size_bytes num) then
            (Exits EXIT_FAILURE,
             [Stdout ''Enter number of elements: '', Sys_malloc (size_bytes num), Perror ''malloc''],
             flight)
          else
            (case scan_loop 0 (size_of_count num) rest [] of
               None \<Rightarrow>
                 (Exits EXIT_FAILURE,
                  [Stdout ''Enter number of elements: '', Sys_malloc (size_bytes num),
                   Stdout ''Enter %d numbers: '', Stderr ''Invalid input.'', Sys_free],
                  flight)
             | Some arr \<Rightarrow>
                 (case write_all (sys_write (write_sched env)) (0, flight) (int_bytes num) sizeof_int of
                    None \<Rightarrow>
                      (Hangs,
                       [Stdout ''Enter number of elements: '', Sys_malloc (size_bytes num),
                        Stdout ''Enter %d numbers: '', Call_write_all sizeof_int],
                       flight)
                  | Some (r1, st1) \<Rightarrow>
                      if r1 = - 1 then
                        (Exits EXIT_FAILURE,
                         [Stdout ''Enter number of elements: '', Sys_malloc (size_bytes num),
                          Stdout ''Enter %d numbers: '', Call_write_all sizeof_int, Sys_free,
                          Perror ''write_all''],
                         snd st1)
                      else
                        (case write_all (sys_write (write_sched env)) st1 (arr_bytes arr)
                                (size_bytes num) of
                           None \<Rightarrow>
                             (Hangs,
                              [Stdout ''Enter number of elements: '', Sys_malloc (size_bytes num),
                               Stdout ''Enter %d numbers: '', Call_write_all sizeof_int,
                               Call_write_all (size_bytes num)],
                              snd st1)
                         | Some (r2, st2) \<Rightarrow>
                             if r2 = - 1 then
                               (Exits EXIT_FAILURE,
                                [Stdout ''Enter number of elements: '', Sys_malloc (size_bytes num),
                                 Stdout ''Enter %d numbers: '', Call_write_all sizeof_int,
                                 Call_write_all (size_bytes num), Sys_free, Perror ''write_all''],
                                snd st2)
                             else
                               (Returns,
                                [Stdout ''Enter number of elements: '', Sys_malloc (size_bytes num),
                                 Stdout ''Enter %d numbers: '', Call_write_all sizeof_int,
                                 Call_write_all (size_bytes num), Sys_free],
                                snd st2)))))"

definition parent_process_pipe :: "env \<Rightarrow> byte list \<Rightarrow> flow \<times> event list \<times> byte list" where
  "parent_process_pipe env flight =
     (case read_all (sys_read (read_sched env)) (0, flight) sizeof_int of
        None \<Rightarrow>
          (Hangs,
           [Call_read_all sizeof_int],
           flight)
      | Some (r1, buf1, st1) \<Rightarrow>
          if to_int32 r1 = - 1 then
            (Exits EXIT_FAILURE, [Call_read_all sizeof_int, Perror ''read_all''], snd st1)
          else if \<not> malloc_ok env (size_bytes (bytes_int buf1)) then
            (Exits EXIT_FAILURE,
             [Call_read_all sizeof_int, Sys_malloc (size_bytes (bytes_int buf1)), Perror ''malloc''],
             snd st1)
          else
            (case read_all (sys_read (read_sched env)) st1 (size_bytes (bytes_int buf1)) of
               None \<Rightarrow>
                 (Hangs,
                  [Call_read_all sizeof_int, Sys_malloc (size_bytes (bytes_int buf1)),
                   Call_read_all (size_bytes (bytes_int buf1))],
                  snd st1)
             | Some (r2, buf2, st2) \<Rightarrow>
                 if to_int32 r2 = - 1 then
                   (Exits EXIT_FAILURE,
                    [Call_read_all sizeof_int, Sys_malloc (size_bytes (bytes_int buf1)),
                     Call_read_all (size_bytes (bytes_int buf1)), Perror ''read_all''],
                    snd st2)
                 else
                   (case print_loop 0 (size_of_count (bytes_int buf1)) (bytes_arr buf2) of
                      (f, es) \<Rightarrow>
                        if f \<noteq> Returns then
                          (f,
                           [Call_read_all sizeof_int, Sys_malloc (size_bytes (bytes_int buf1)),
                            Call_read_all (size_bytes (bytes_int buf1))] @ es,
                           snd st2)
                        else if wait_ret env = - 1 then
                          (Exits EXIT_FAILURE,
                           [Call_read_all sizeof_int, Sys_malloc (size_bytes (bytes_int buf1)),
                            Call_read_all (size_bytes (bytes_int buf1))] @ es @
                           [Stdout_newline, Sys_free, Sys_wait (wait_ret env), Perror ''wait''],
                           snd st2)
                        else
                          (Returns,
                           [Call_read_all sizeof_int, Sys_malloc (size_bytes (bytes_int buf1)),
                            Call_read_all (size_bytes (bytes_int buf1))] @ es @
                           [Stdout_newline, Sys_free, Sys_wait (wait_ret env)],
                           snd st2))))"

text \<open>\<open>main\<close> of the pipe program: each process closes the end it does not use, runs its
  role and closes its own end; every \<^verbatim>\<open>close\<close> goes through \<open>check_result\<close>. The child
  has written and closed before the parent's reads are answered from the bytes in flight.\<close>

definition after_fork_pipe :: "env \<Rightarrow> int \<Rightarrow> stdin \<Rightarrow> byte list \<Rightarrow> flow \<times> event list \<times> byte list" where
  "after_fork_pipe env pid inp flight =
     (if close_ret env = - 1 then (Exits EXIT_FAILURE, [Sys_close, Perror ''close''], flight)
      else
        (case (if pid = 0 then child_process_pipe env inp flight
               else parent_process_pipe env flight) of
           (f, es, flight') \<Rightarrow>
             if f \<noteq> Returns then (f, Sys_close # es, flight')
             else (Returns, Sys_close # es @ [Sys_close], flight')))"

definition main_pipe ::
  "env \<Rightarrow> stdin \<Rightarrow> (flow \<times> event list) \<times> (flow \<times> event list) option \<times> byte list" where
  "main_pipe env inp =
     (if pipe_ret env = - 1 then ((Exits EXIT_FAILURE, [Sys_pipe, Perror ''pipe'']), None, [])
      else if fork_ret env = - 1 then
        ((Exits EXIT_FAILURE, [Sys_pipe, Sys_fork, Perror ''fork'']), None, [])
      else
        (case after_fork_pipe env 0 inp [] of
           (cf, ce, flight1) \<Rightarrow>
             (case after_fork_pipe env (fork_ret env) inp flight1 of
                (pf, pe, flight2) \<Rightarrow>
                  ((main_return pf, [Sys_pipe, Sys_fork] @ pe), Some (main_return cf, ce),
                   flight2))))"

subsection \<open>The pipe program written inline in main\<close>

text \<open>
  The second pipe example keeps both roles inside \<open>main\<close>. It differs from the program
  above in its error paths only: \<^verbatim>\<open>close\<close> and \<^verbatim>\<open>wait\<close> are not checked, the result of
  \<open>read_all\<close> is compared with \<open>-1\<close> as it is, and the array is not freed when a number
  cannot be read. The two branches after \<^verbatim>\<open>fork\<close> are the two definitions below.
\<close>

definition main_pipe_inline_child :: "env \<Rightarrow> stdin \<Rightarrow> byte list \<Rightarrow> flow \<times> event list \<times> byte list" where
  "main_pipe_inline_child env inp flight =
     (case scanf_d inp of
        None \<Rightarrow>
          (Exits EXIT_FAILURE,
           [Sys_close, Stdout ''Enter number of elements: '', Stderr ''Invalid input.''], flight)
      | Some (num, rest) \<Rightarrow>
          if sint num \<le> 0 \<or> sint num > pipe_limit then
            (Exits EXIT_FAILURE,
             [Sys_close, Stdout ''Enter number of elements: '', Stderr ''0 < num < 257''], flight)
          else if \<not> malloc_ok env (size_bytes num) then
            (Exits EXIT_FAILURE,
             [Sys_close, Stdout ''Enter number of elements: '', Sys_malloc (size_bytes num),
              Perror ''malloc''], flight)
          else
            (case scan_loop 0 (size_of_count num) rest [] of
               None \<Rightarrow>
                 (Exits EXIT_FAILURE,
                  [Sys_close, Stdout ''Enter number of elements: '', Sys_malloc (size_bytes num),
                   Stdout ''Enter %d numbers: '', Stderr ''Invalid input.''], flight)
             | Some arr \<Rightarrow>
                 (case write_all (sys_write (write_sched env)) (0, flight) (int_bytes num) sizeof_int of
                    None \<Rightarrow>
                      (Hangs,
                       [Sys_close, Stdout ''Enter number of elements: '', Sys_malloc (size_bytes num),
                        Stdout ''Enter %d numbers: '', Call_write_all sizeof_int],
                       flight)
                  | Some (r1, st1) \<Rightarrow>
                      if r1 = - 1 then
                        (Exits EXIT_FAILURE,
                         [Sys_close, Stdout ''Enter number of elements: '',
                          Sys_malloc (size_bytes num), Stdout ''Enter %d numbers: '',
                          Call_write_all sizeof_int, Perror ''write_all'', Sys_free],
                         snd st1)
                      else
                        (case write_all (sys_write (write_sched env)) st1 (arr_bytes arr)
                                (size_bytes num) of
                           None \<Rightarrow>
                             (Hangs,
                              [Sys_close, Stdout ''Enter number of elements: '', Sys_malloc (size_bytes num),
                               Stdout ''Enter %d numbers: '', Call_write_all sizeof_int,
                               Call_write_all (size_bytes num)],
                              snd st1)
                         | Some (r2, st2) \<Rightarrow>
                             if r2 = - 1 then
                               (Exits EXIT_FAILURE,
                                [Sys_close, Stdout ''Enter number of elements: '',
                                 Sys_malloc (size_bytes num), Stdout ''Enter %d numbers: '',
                                 Call_write_all sizeof_int, Call_write_all (size_bytes num),
                                 Perror ''write_all'', Sys_free],
                                snd st2)
                             else
                               (Returns,
                                [Sys_close, Stdout ''Enter number of elements: '',
                                 Sys_malloc (size_bytes num), Stdout ''Enter %d numbers: '',
                                 Call_write_all sizeof_int, Call_write_all (size_bytes num),
                                 Sys_free, Sys_close],
                                snd st2)))))"

definition main_pipe_inline_parent :: "env \<Rightarrow> byte list \<Rightarrow> flow \<times> event list \<times> byte list" where
  "main_pipe_inline_parent env flight =
     (case read_all (sys_read (read_sched env)) (0, flight) sizeof_int of
        None \<Rightarrow>
          (Hangs,
           [Sys_close, Call_read_all sizeof_int],
           flight)
      | Some (r1, buf1, st1) \<Rightarrow>
          if r1 = - 1 then
            (Exits EXIT_FAILURE, [Sys_close, Call_read_all sizeof_int, Perror ''read_all''],
             snd st1)
          else if \<not> malloc_ok env (size_bytes (bytes_int buf1)) then
            (Exits EXIT_FAILURE,
             [Sys_close, Call_read_all sizeof_int, Sys_malloc (size_bytes (bytes_int buf1)),
              Perror ''malloc''],
             snd st1)
          else
            (case read_all (sys_read (read_sched env)) st1 (size_bytes (bytes_int buf1)) of
               None \<Rightarrow>
                 (Hangs,
                  [Sys_close, Call_read_all sizeof_int, Sys_malloc (size_bytes (bytes_int buf1)),
                   Call_read_all (size_bytes (bytes_int buf1))],
                  snd st1)
             | Some (r2, buf2, st2) \<Rightarrow>
                 if r2 = - 1 then
                   (Exits EXIT_FAILURE,
                    [Sys_close, Call_read_all sizeof_int, Sys_malloc (size_bytes (bytes_int buf1)),
                     Call_read_all (size_bytes (bytes_int buf1)), Perror ''read_all''],
                    snd st2)
                 else
                   (case print_loop 0 (size_of_count (bytes_int buf1)) (bytes_arr buf2) of
                      (f, es) \<Rightarrow>
                        if f \<noteq> Returns then
                          (f,
                           [Sys_close, Call_read_all sizeof_int,
                            Sys_malloc (size_bytes (bytes_int buf1)),
                            Call_read_all (size_bytes (bytes_int buf1))] @ es,
                           snd st2)
                        else
                          (Returns,
                           [Sys_close, Call_read_all sizeof_int,
                            Sys_malloc (size_bytes (bytes_int buf1)),
                            Call_read_all (size_bytes (bytes_int buf1))] @ es @
                           [Stdout_newline, Sys_free, Sys_close, Sys_wait (wait_ret env)],
                           snd st2))))"

definition after_fork_pipe_inline ::
  "env \<Rightarrow> int \<Rightarrow> stdin \<Rightarrow> byte list \<Rightarrow> flow \<times> event list \<times> byte list" where
  "after_fork_pipe_inline env pid inp flight =
     (if pid = 0 then main_pipe_inline_child env inp flight
      else main_pipe_inline_parent env flight)"

definition main_pipe_inline ::
  "env \<Rightarrow> stdin \<Rightarrow> (flow \<times> event list) \<times> (flow \<times> event list) option \<times> byte list" where
  "main_pipe_inline env inp =
     (if pipe_ret env = - 1 then ((Exits EXIT_FAILURE, [Sys_pipe, Perror ''pipe'']), None, [])
      else if fork_ret env = - 1 then
        ((Exits EXIT_FAILURE, [Sys_pipe, Sys_fork, Perror ''fork'']), None, [])
      else
        (case after_fork_pipe_inline env 0 inp [] of
           (cf, ce, flight1) \<Rightarrow>
             (case after_fork_pipe_inline env (fork_ret env) inp flight1 of
                (pf, pe, flight2) \<Rightarrow>
                  ((main_return pf, [Sys_pipe, Sys_fork] @ pe), Some (main_return cf, ce),
                   flight2))))"

section \<open>The named-FIFO program\<close>

text \<open>The file-system namespace is a set of paths. \<^verbatim>\<open>mkfifo\<close> fails with \<open>EEXIST\<close> on a
  path that is there, with the environment's error if it injects one, and creates the entry
  otherwise; \<^verbatim>\<open>unlink\<close> removes a path that is there.\<close>

record fifo_world =
  fifo_flight :: "byte list"
  fs_names :: "string set"

definition sys_mkfifo :: "errno option \<Rightarrow> string \<Rightarrow> string set \<Rightarrow> int \<times> errno option \<times> string set" where
  "sys_mkfifo fail path names =
     (if path \<in> names then (- 1, Some EEXIST, names)
      else (case fail of
              None \<Rightarrow> (0, None, insert path names)
            | Some e \<Rightarrow> (- 1, Some e, names)))"

definition sys_unlink :: "string \<Rightarrow> string set \<Rightarrow> int \<times> string set" where
  "sys_unlink path names = (if path \<in> names then (0, names - {path}) else (- 1, names))"

definition cleanup_fifo :: "fifo_world \<Rightarrow> event list \<times> fifo_world" where
  "cleanup_fifo w =
     (case sys_unlink FIFO_PATH (fs_names w) of
        (r, names') \<Rightarrow>
          (Sys_unlink # (if r \<noteq> 0 then [Perror ''unlink''] else []), w\<lparr>fs_names := names'\<rparr>))"

definition close_fd :: "env \<Rightarrow> event list" where
  "close_fd env = Sys_close # (if close_ret env \<noteq> 0 then [Perror ''close''] else [])"

definition child_process_fifo :: "env \<Rightarrow> stdin \<Rightarrow> fifo_world \<Rightarrow> flow \<times> event list \<times> fifo_world" where
  "child_process_fifo env inp w =
     (if open_child_ret env = - 1 then (Exits EXIT_FAILURE, [Sys_open, Perror ''open (child)''], w)
      else
        (case scanf_d inp of
           None \<Rightarrow>
             (Exits EXIT_FAILURE,
              [Sys_open, Stdout ''Enter number of elements: '', Stderr ''Invalid input.''] @
              close_fd env, w)
         | Some (num, rest) \<Rightarrow>
             if sint num \<le> 0 \<or> sint num > pipe_limit then
               (Exits EXIT_FAILURE,
                [Sys_open, Stdout ''Enter number of elements: '', Stderr ''0 < num < 257''] @
                close_fd env, w)
             else if \<not> malloc_ok env (size_bytes num) then
               (Exits EXIT_FAILURE,
                [Sys_open, Stdout ''Enter number of elements: '', Sys_malloc (size_bytes num),
                 Perror ''malloc''], w)
             else
               (case scan_loop 0 (size_of_count num) rest [] of
                  None \<Rightarrow>
                    (Exits EXIT_FAILURE,
                     [Sys_open, Stdout ''Enter number of elements: '', Sys_malloc (size_bytes num),
                      Stdout ''Enter %d numbers: '', Stderr ''Invalid input.'', Sys_free] @
                     close_fd env, w)
                | Some arr \<Rightarrow>
                    (case write_all (sys_write (write_sched env)) (0, fifo_flight w) (int_bytes num)
                            sizeof_int of
                       None \<Rightarrow>
                         (Hangs,
                          [Sys_open, Stdout ''Enter number of elements: '', Sys_malloc (size_bytes num),
                           Stdout ''Enter %d numbers: '', Call_write_all sizeof_int],
                          w)
                     | Some (r1, st1) \<Rightarrow>
                         if r1 = - 1 then
                           (Exits EXIT_FAILURE,
                            [Sys_open, Stdout ''Enter number of elements: '',
                             Sys_malloc (size_bytes num), Stdout ''Enter %d numbers: '',
                             Call_write_all sizeof_int, Perror ''write_all'', Sys_free] @
                            close_fd env, w\<lparr>fifo_flight := snd st1\<rparr>)
                         else
                           (case write_all (sys_write (write_sched env)) st1 (arr_bytes arr)
                                   (size_bytes num) of
                              None \<Rightarrow>
                                (Hangs,
                                 [Sys_open, Stdout ''Enter number of elements: '', Sys_malloc (size_bytes num),
                                  Stdout ''Enter %d numbers: '', Call_write_all sizeof_int,
                                  Call_write_all (size_bytes num)],
                                 w\<lparr>fifo_flight := snd st1\<rparr>)
                            | Some (r2, st2) \<Rightarrow>
                                if r2 = - 1 then
                                  (Exits EXIT_FAILURE,
                                   [Sys_open, Stdout ''Enter number of elements: '',
                                    Sys_malloc (size_bytes num), Stdout ''Enter %d numbers: '',
                                    Call_write_all sizeof_int, Call_write_all (size_bytes num),
                                    Perror ''write_all'', Sys_free] @
                                   close_fd env, w\<lparr>fifo_flight := snd st2\<rparr>)
                                else
                                  (Returns,
                                   [Sys_open, Stdout ''Enter number of elements: '',
                                    Sys_malloc (size_bytes num), Stdout ''Enter %d numbers: '',
                                    Call_write_all sizeof_int, Call_write_all (size_bytes num),
                                    Sys_free] @
                                   close_fd env, w\<lparr>fifo_flight := snd st2\<rparr>))))))"

definition parent_process_fifo :: "env \<Rightarrow> fifo_world \<Rightarrow> flow \<times> event list \<times> fifo_world" where
  "parent_process_fifo env w =
     (if open_parent_ret env = - 1 then
        (case cleanup_fifo w of
           (cs, w') \<Rightarrow> (Exits EXIT_FAILURE, [Sys_open, Perror ''open (parent)''] @ cs, w'))
      else
        (case read_all (sys_read (read_sched env)) (0, fifo_flight w) sizeof_int of
           None \<Rightarrow>
             (Hangs,
              [Sys_open, Call_read_all sizeof_int],
              w)
         | Some (r1, buf1, st1) \<Rightarrow>
             if r1 = - 1 then
               (case cleanup_fifo (w\<lparr>fifo_flight := snd st1\<rparr>) of
                  (cs, w') \<Rightarrow>
                    (Exits EXIT_FAILURE,
                     [Sys_open, Call_read_all sizeof_int, Perror ''read_all''] @ close_fd env @ cs,
                     w'))
             else if \<not> malloc_ok env (size_bytes (bytes_int buf1)) then
               (case cleanup_fifo (w\<lparr>fifo_flight := snd st1\<rparr>) of
                  (cs, w') \<Rightarrow>
                    (Exits EXIT_FAILURE,
                     [Sys_open, Call_read_all sizeof_int, Sys_malloc (size_bytes (bytes_int buf1)),
                      Perror ''malloc''] @ close_fd env @ cs,
                     w'))
             else
               (case read_all (sys_read (read_sched env)) st1 (size_bytes (bytes_int buf1)) of
                  None \<Rightarrow>
                    (Hangs,
                     [Sys_open, Call_read_all sizeof_int, Sys_malloc (size_bytes (bytes_int buf1)),
                      Call_read_all (size_bytes (bytes_int buf1))],
                     w\<lparr>fifo_flight := snd st1\<rparr>)
                | Some (r2, buf2, st2) \<Rightarrow>
                    if r2 = - 1 then
                      (case cleanup_fifo (w\<lparr>fifo_flight := snd st2\<rparr>) of
                         (cs, w') \<Rightarrow>
                           (Exits EXIT_FAILURE,
                            [Sys_open, Call_read_all sizeof_int,
                             Sys_malloc (size_bytes (bytes_int buf1)),
                             Call_read_all (size_bytes (bytes_int buf1)), Perror ''read_all'',
                             Sys_free] @ close_fd env @ cs,
                            w'))
                    else
                      (case print_loop 0 (size_of_count (bytes_int buf1)) (bytes_arr buf2) of
                         (f, es) \<Rightarrow>
                           if f \<noteq> Returns then
                             (f,
                              [Sys_open, Call_read_all sizeof_int,
                               Sys_malloc (size_bytes (bytes_int buf1)),
                               Call_read_all (size_bytes (bytes_int buf1))] @ es,
                              w\<lparr>fifo_flight := snd st2\<rparr>)
                           else
                             (case cleanup_fifo (w\<lparr>fifo_flight := snd st2\<rparr>) of
                                (cs, w') \<Rightarrow>
                                  (Returns,
                                   [Sys_open, Call_read_all sizeof_int,
                                    Sys_malloc (size_bytes (bytes_int buf1)),
                                    Call_read_all (size_bytes (bytes_int buf1))] @ es @
                                   [Stdout_newline, Sys_free] @ close_fd env @ cs @
                                   Sys_wait (wait_ret env) #
                                   (if wait_ret env = - 1 then [Perror ''wait''] else []),
                                   w'))))))"

definition after_fork_fifo :: "env \<Rightarrow> int \<Rightarrow> stdin \<Rightarrow> fifo_world \<Rightarrow> flow \<times> event list \<times> fifo_world" where
  "after_fork_fifo env pid inp w =
     (if pid = 0 then child_process_fifo env inp w else parent_process_fifo env w)"

definition main_fifo ::
  "env \<Rightarrow> stdin \<Rightarrow> fifo_world \<Rightarrow> (flow \<times> event list) \<times> (flow \<times> event list) option \<times> fifo_world" where
  "main_fifo env inp w =
     (case sys_mkfifo (mkfifo_fail env) FIFO_PATH (fs_names w) of
        (ret, err, names1) \<Rightarrow>
          if ret = - 1 \<and> err \<noteq> Some EEXIST then
            ((Exits EXIT_FAILURE, [Sys_mkfifo, Perror ''mkfifo'']), None, w\<lparr>fs_names := names1\<rparr>)
          else if fork_ret env = - 1 then
            (case cleanup_fifo (w\<lparr>fs_names := names1\<rparr>) of
               (cs, w') \<Rightarrow>
                 ((Exits EXIT_FAILURE, [Sys_mkfifo, Sys_fork, Perror ''fork''] @ cs), None, w'))
          else
            (case after_fork_fifo env 0 inp (w\<lparr>fs_names := names1\<rparr>) of
               (cf, ce, w1) \<Rightarrow>
                 (case after_fork_fifo env (fork_ret env) inp w1 of
                    (pf, pe, w2) \<Rightarrow>
                      ((main_return pf, [Sys_mkfifo, Sys_fork] @ pe), Some (main_return cf, ce),
                       w2))))"

section \<open>Reading traces\<close>

text \<open>What the consumer printed, and whether a trace keeps every segment access after the
  return of \<^verbatim>\<open>wait\<close>.\<close>

fun printed :: "event list \<Rightarrow> cint list" where
  "printed [] = []"
| "printed (Stdout_int v # es) = v # printed es"
| "printed (e # es) = printed es"

fun is_access :: "event \<Rightarrow> bool" where
  "is_access (Shm_load i) = True"
| "is_access (Shm_store i v) = True"
| "is_access e = False"

fun is_wait :: "event \<Rightarrow> bool" where
  "is_wait (Sys_wait r) = True"
| "is_wait e = False"

fun loads_after_wait :: "event list \<Rightarrow> bool" where
  "loads_after_wait [] = True"
| "loads_after_wait (e # es) = (is_wait e \<or> (\<not> is_access e \<and> loads_after_wait es))"

fun accesses :: "event list \<Rightarrow> nat list" where
  "accesses [] = []"
| "accesses (Shm_load i # es) = i # accesses es"
| "accesses (Shm_store i v # es) = i # accesses es"
| "accesses (e # es) = accesses es"

text \<open>An environment in which every system call succeeds: \<^verbatim>\<open>fork\<close> returns the child's
  process id to the parent and \<^verbatim>\<open>wait\<close> returns the id of the child it reaped.\<close>

definition ok_env :: env where
  "ok_env = \<lparr>shm_open_ret = 3, ftruncate_ret = 0, mmap_ret = Mapped, munmap_ret = 0,
     close_ret = 0, pipe_ret = 0, mkfifo_fail = None, open_child_ret = 3, open_parent_ret = 3,
     fork_ret = 4242, wait_ret = 4242, malloc_ok = (\<lambda>_. True), write_sched = (\<lambda>_. 4096),
     read_sched = (\<lambda>_. 4096)\<rparr>"

text \<open>No system call fails: every descriptor, process id and pointer is a valid one, the
  allocator never returns \<open>NULL\<close>, \<^verbatim>\<open>mkfifo\<close> has at worst the tolerated \<open>EEXIST\<close>, and
  every \<^verbatim>\<open>write\<close> and \<^verbatim>\<open>read\<close> moves at least one byte (in chunks of any size).\<close>

definition io_ok :: "env \<Rightarrow> bool" where
  "io_ok env \<longleftrightarrow>
     shm_open_ret env \<noteq> - 1 \<and> ftruncate_ret env \<noteq> - 1 \<and> mmap_ret env = Mapped \<and>
     pipe_ret env \<noteq> - 1 \<and> (mkfifo_fail env = None \<or> mkfifo_fail env = Some EEXIST) \<and>
     open_child_ret env \<noteq> - 1 \<and> open_parent_ret env \<noteq> - 1 \<and> close_ret env \<noteq> - 1 \<and>
     fork_ret env \<noteq> - 1 \<and> fork_ret env \<noteq> 0 \<and> wait_ret env \<noteq> - 1 \<and>
     (\<forall>n. malloc_ok env n) \<and> (\<forall>j. 0 < write_sched env j) \<and> (\<forall>j. 0 < read_sched env j)"

definition fresh_shm :: shm_world where
  "fresh_shm = \<lparr>segment = (\<lambda>_. 0), shm_names = {}\<rparr>"

definition fresh_fifo :: fifo_world where
  "fresh_fifo = \<lparr>fifo_flight = [], fs_names = {}\<rparr>"

section \<open>Properties\<close>

subsection \<open>Facts about the transfer loops\<close>

lemma ssize_of_small: "tot \<le> SSIZE_MAX \<Longrightarrow> ssize_of tot = int tot"
  by (simp add: ssize_of_def SSIZE_MAX_def)

lemma ssize_of_not_minus_one: "tot < SIZE_MAX \<Longrightarrow> ssize_of tot \<noteq> - 1"
  by (simp add: ssize_of_def SIZE_MAX_def)

lemma ssize_of_SIZE_MAX: "ssize_of SIZE_MAX = - 1"
  by (simp add: ssize_of_def SIZE_MAX_def)

lemma size_add_small:
  "0 \<le> written \<Longrightarrow> int tot + written \<le> int SIZE_MAX \<Longrightarrow> size_add tot written = tot + nat written"
  by (simp add: size_add_def SIZE_MAX_def nat_add_distrib)

lemma write_all_loop_done:
  "\<not> tot < bytes \<Longrightarrow> write_all_loop wr buffer bytes tot s = Some (ssize_of tot, s)"
  by (simp add: write_all_loop.simps)

lemma write_all_loop_step:
  "tot < bytes \<Longrightarrow> wr s (drop tot buffer) (bytes - tot) = (written, s') \<Longrightarrow>
   write_all_loop wr buffer bytes tot s =
     (if written \<le> 0 then Some (- 1, s')
      else write_all_loop wr buffer bytes (size_add tot written) s')"
  by (simp add: write_all_loop.simps [of wr buffer bytes tot s])

lemma read_all_loop_done:
  "\<not> tot < bytes \<Longrightarrow> read_all_loop rd bytes tot buffer s = Some (ssize_of tot, buffer, s)"
  by (simp add: read_all_loop.simps)

lemma read_all_loop_step:
  "tot < bytes \<Longrightarrow> rd s (bytes - tot) = ((r, got), s') \<Longrightarrow>
   read_all_loop rd bytes tot buffer s =
     (if r \<le> 0 then Some (- 1, buffer, s')
      else read_all_loop rd bytes (size_add tot r) (buffer @ got) s')"
  by (simp add: read_all_loop.simps [of rd bytes tot buffer s])

text \<open>Requests of at most \<open>SSIZE_MAX\<close> bytes: the total cannot wrap around, whatever the
  primitive answers, so the loop ends and returns \<open>-1\<close> only after a call that did.\<close>

lemma write_loop_log:
  assumes b: "bytes \<le> SSIZE_MAX" and t: "write_ssize wr"
  shows "tot < SIZE_MAX \<Longrightarrow>
   \<exists>r s' new.
      write_all_loop (logged_write wr) buffer bytes tot (s, log) = Some (r, (s', log @ new)) \<and>
      write_all_loop wr buffer bytes tot s = Some (r, s') \<and>
      length new \<le> bytes - tot \<and>
      (r = - 1 \<longleftrightarrow> (\<exists>x\<in>set new. x \<le> 0)) \<and>
      (\<forall>x\<in>set (butlast new). 0 < x) \<and>
      (write_contract wr \<longrightarrow> tot \<le> bytes \<longrightarrow> r \<noteq> - 1 \<longrightarrow>
         r = int bytes \<and> int tot + sum_list new = int bytes) \<and>
      (write_progress wr \<longrightarrow> (\<forall>x\<in>set new. 0 < x))"
proof (induction "bytes - tot" arbitrary: tot s log rule: less_induct)
  case less
  show ?case
  proof (cases "tot < bytes")
    case False
    have n1: "ssize_of tot \<noteq> - 1" using less.prems by (rule ssize_of_not_minus_one)
    have eq: "tot \<le> bytes \<Longrightarrow> ssize_of tot = int bytes"
      using False b by (simp add: ssize_of_small)
    have "write_all_loop (logged_write wr) buffer bytes tot (s, log) = Some (ssize_of tot, (s, log @ []))"
      using False by (simp add: write_all_loop_done)
    moreover have "write_all_loop wr buffer bytes tot s = Some (ssize_of tot, s)"
      using False by (simp add: write_all_loop_done)
    moreover have "write_contract wr \<longrightarrow> tot \<le> bytes \<longrightarrow> ssize_of tot \<noteq> - 1 \<longrightarrow>
         ssize_of tot = int bytes \<and> int tot + sum_list [] = int bytes"
      using False eq by simp
    ultimately show ?thesis using n1 by (intro exI [of _ "ssize_of tot"] exI [of _ s] exI [of _ "[]"]) simp
  next
    case True
    obtain w s1 where w: "wr s (drop tot buffer) (bytes - tot) = (w, s1)"
      by (cases "wr s (drop tot buffer) (bytes - tot)")
    then have lw: "logged_write wr (s, log) (drop tot buffer) (bytes - tot) = (w, (s1, log @ [w]))"
      by (simp add: logged_write_def)
    have pr: "write_progress wr \<longrightarrow> 0 < w"
      using w True unfolding write_progress_def by (metis fst_conv zero_less_diff)
    show ?thesis
    proof (cases "w \<le> 0")
      case neg: True
      have "write_all_loop (logged_write wr) buffer bytes tot (s, log) = Some (- 1, (s1, log @ [w]))"
        using write_all_loop_step [where wr = "logged_write wr" and s = "(s, log)", OF True lw] neg
        by simp
      moreover have "write_all_loop wr buffer bytes tot s = Some (- 1, s1)"
        using write_all_loop_step [where wr = wr and s = s, OF True w] neg by simp
      moreover have "length [w] \<le> bytes - tot" using True by simp
      ultimately show ?thesis using neg pr
        by (intro exI [of _ "- 1"] exI [of _ s1] exI [of _ "[w]"]) simp
    next
      case pos: False
      have wle: "w \<le> int SSIZE_MAX"
        using t w unfolding write_ssize_def by (metis fst_conv)
      have nowrap: "int tot + w \<le> int SIZE_MAX"
        using True b wle by (simp add: SSIZE_MAX_def SIZE_MAX_def)
      have sa: "size_add tot w = tot + nat w"
        using pos nowrap by (simp add: size_add_small)
      have lt: "tot + nat w < SIZE_MAX"
        using True b wle pos by (simp add: SSIZE_MAX_def SIZE_MAX_def)
      have dec: "bytes - (tot + nat w) < bytes - tot" using True pos by linarith
      from less.hyps [OF dec lt, of s1 "log @ [w]"]
      obtain r s' new where
        l: "write_all_loop (logged_write wr) buffer bytes (tot + nat w) (s1, log @ [w]) =
              Some (r, (s', (log @ [w]) @ new))"
        and u: "write_all_loop wr buffer bytes (tot + nat w) s1 = Some (r, s')"
        and len: "length new \<le> bytes - (tot + nat w)"
        and iff: "r = - 1 \<longleftrightarrow> (\<exists>x\<in>set new. x \<le> 0)"
        and bl: "\<forall>x\<in>set (butlast new). 0 < x"
        and ct: "write_contract wr \<longrightarrow> tot + nat w \<le> bytes \<longrightarrow> r \<noteq> - 1 \<longrightarrow>
                   r = int bytes \<and> int (tot + nat w) + sum_list new = int bytes"
        and prg: "write_progress wr \<longrightarrow> (\<forall>x\<in>set new. 0 < x)"
        by blast
      have l': "write_all_loop (logged_write wr) buffer bytes tot (s, log) = Some (r, (s', log @ (w # new)))"
        using write_all_loop_step [where wr = "logged_write wr" and s = "(s, log)", OF True lw] pos l sa
        by simp
      have u': "write_all_loop wr buffer bytes tot s = Some (r, s')"
        using write_all_loop_step [where wr = wr and s = s, OF True w] pos u sa by simp
      have len': "length (w # new) \<le> bytes - tot" using len True pos by simp
      have iff': "r = - 1 \<longleftrightarrow> (\<exists>x\<in>set (w # new). x \<le> 0)" using iff pos by simp
      have bl': "\<forall>x\<in>set (butlast (w # new)). 0 < x" using bl pos by simp
      have ct': "write_contract wr \<longrightarrow> tot \<le> bytes \<longrightarrow> r \<noteq> - 1 \<longrightarrow>
                   r = int bytes \<and> int tot + sum_list (w # new) = int bytes"
      proof (intro impI)
        assume c: "write_contract wr" and "tot \<le> bytes" and rn: "r \<noteq> - 1"
        have "w \<le> int (bytes - tot)" using c w unfolding write_contract_def by (metis fst_conv)
        then have "tot + nat w \<le> bytes" using True pos by linarith
        with ct c rn have "r = int bytes \<and> int (tot + nat w) + sum_list new = int bytes" by blast
        then show "r = int bytes \<and> int tot + sum_list (w # new) = int bytes" using pos by simp
      qed
      have prg': "write_progress wr \<longrightarrow> (\<forall>x\<in>set (w # new). 0 < x)" using prg pos by simp
      from l' u' len' iff' bl' ct' prg' show ?thesis by blast
    qed
  qed
qed

lemma read_loop_log:
  assumes b: "bytes \<le> SSIZE_MAX" and t: "read_ssize rd"
  shows "tot < SIZE_MAX \<Longrightarrow>
   \<exists>r buf' s' new.
      read_all_loop (logged_read rd) bytes tot buffer (s, log) = Some (r, buf', (s', log @ new)) \<and>
      read_all_loop rd bytes tot buffer s = Some (r, buf', s') \<and>
      length new \<le> bytes - tot \<and>
      (r = - 1 \<longleftrightarrow> (\<exists>x\<in>set new. x \<le> 0)) \<and>
      (\<forall>x\<in>set (butlast new). 0 < x) \<and>
      (read_contract rd \<longrightarrow> tot \<le> bytes \<longrightarrow> r \<noteq> - 1 \<longrightarrow>
         r = int bytes \<and> int tot + sum_list new = int bytes) \<and>
      (read_progress rd \<longrightarrow> (\<forall>x\<in>set new. 0 < x))"
proof (induction "bytes - tot" arbitrary: tot buffer s log rule: less_induct)
  case less
  show ?case
  proof (cases "tot < bytes")
    case False
    have n1: "ssize_of tot \<noteq> - 1" using less.prems by (rule ssize_of_not_minus_one)
    have eq: "tot \<le> bytes \<Longrightarrow> ssize_of tot = int bytes"
      using False b by (simp add: ssize_of_small)
    have "read_all_loop (logged_read rd) bytes tot buffer (s, log) =
            Some (ssize_of tot, buffer, (s, log @ []))"
      using False by (simp add: read_all_loop_done)
    moreover have "read_all_loop rd bytes tot buffer s = Some (ssize_of tot, buffer, s)"
      using False by (simp add: read_all_loop_done)
    moreover have "read_contract rd \<longrightarrow> tot \<le> bytes \<longrightarrow> ssize_of tot \<noteq> - 1 \<longrightarrow>
         ssize_of tot = int bytes \<and> int tot + sum_list [] = int bytes"
      using False eq by simp
    ultimately show ?thesis using n1
      by (intro exI [of _ "ssize_of tot"] exI [of _ buffer] exI [of _ s] exI [of _ "[]"]) simp
  next
    case True
    obtain w got s1 where w: "rd s (bytes - tot) = ((w, got), s1)"
      by (cases "rd s (bytes - tot)") auto
    then have lw: "logged_read rd (s, log) (bytes - tot) = ((w, got), (s1, log @ [w]))"
      by (simp add: logged_read_def)
    have pr: "read_progress rd \<longrightarrow> 0 < w"
      using w True unfolding read_progress_def by (metis fst_conv zero_less_diff)
    show ?thesis
    proof (cases "w \<le> 0")
      case neg: True
      have "read_all_loop (logged_read rd) bytes tot buffer (s, log) =
              Some (- 1, buffer, (s1, log @ [w]))"
        using read_all_loop_step [where rd = "logged_read rd" and s = "(s, log)", OF True lw] neg
        by simp
      moreover have "read_all_loop rd bytes tot buffer s = Some (- 1, buffer, s1)"
        using read_all_loop_step [where rd = rd and s = s, OF True w] neg by simp
      moreover have "length [w] \<le> bytes - tot" using True by simp
      ultimately show ?thesis using neg pr
        by (intro exI [of _ "- 1"] exI [of _ buffer] exI [of _ s1] exI [of _ "[w]"]) simp
    next
      case pos: False
      have wle: "w \<le> int SSIZE_MAX"
        using t w unfolding read_ssize_def by (metis fst_conv)
      have nowrap: "int tot + w \<le> int SIZE_MAX"
        using True b wle by (simp add: SSIZE_MAX_def SIZE_MAX_def)
      have sa: "size_add tot w = tot + nat w"
        using pos nowrap by (simp add: size_add_small)
      have lt: "tot + nat w < SIZE_MAX"
        using True b wle pos by (simp add: SSIZE_MAX_def SIZE_MAX_def)
      have dec: "bytes - (tot + nat w) < bytes - tot" using True pos by linarith
      from less.hyps [OF dec lt, of "buffer @ got" s1 "log @ [w]"]
      obtain r buf' s' new where
        l: "read_all_loop (logged_read rd) bytes (tot + nat w) (buffer @ got) (s1, log @ [w]) =
              Some (r, buf', (s', (log @ [w]) @ new))"
        and u: "read_all_loop rd bytes (tot + nat w) (buffer @ got) s1 = Some (r, buf', s')"
        and len: "length new \<le> bytes - (tot + nat w)"
        and iff: "r = - 1 \<longleftrightarrow> (\<exists>x\<in>set new. x \<le> 0)"
        and bl: "\<forall>x\<in>set (butlast new). 0 < x"
        and ct: "read_contract rd \<longrightarrow> tot + nat w \<le> bytes \<longrightarrow> r \<noteq> - 1 \<longrightarrow>
                   r = int bytes \<and> int (tot + nat w) + sum_list new = int bytes"
        and prg: "read_progress rd \<longrightarrow> (\<forall>x\<in>set new. 0 < x)"
        by blast
      have l': "read_all_loop (logged_read rd) bytes tot buffer (s, log) =
                  Some (r, buf', (s', log @ (w # new)))"
        using read_all_loop_step [where rd = "logged_read rd" and s = "(s, log)", OF True lw] pos l sa
        by simp
      have u': "read_all_loop rd bytes tot buffer s = Some (r, buf', s')"
        using read_all_loop_step [where rd = rd and s = s, OF True w] pos u sa by simp
      have len': "length (w # new) \<le> bytes - tot" using len True pos by simp
      have iff': "r = - 1 \<longleftrightarrow> (\<exists>x\<in>set (w # new). x \<le> 0)" using iff pos by simp
      have bl': "\<forall>x\<in>set (butlast (w # new)). 0 < x" using bl pos by simp
      have ct': "read_contract rd \<longrightarrow> tot \<le> bytes \<longrightarrow> r \<noteq> - 1 \<longrightarrow>
                   r = int bytes \<and> int tot + sum_list (w # new) = int bytes"
      proof (intro impI)
        assume c: "read_contract rd" and "tot \<le> bytes" and rn: "r \<noteq> - 1"
        have "w \<le> int (bytes - tot)" using c w unfolding read_contract_def by (metis fst_conv)
        then have "tot + nat w \<le> bytes" using True pos by linarith
        with ct c rn have "r = int bytes \<and> int (tot + nat w) + sum_list new = int bytes" by blast
        then show "r = int bytes \<and> int tot + sum_list (w # new) = int bytes" using pos by simp
      qed
      have prg': "read_progress rd \<longrightarrow> (\<forall>x\<in>set (w # new). 0 < x)" using prg pos by simp
      from l' u' len' iff' bl' ct' prg' show ?thesis by blast
    qed
  qed
qed

text \<open>Primitives that keep the contract: the total never passes \<open>bytes\<close>, so the loop ends
  for every \<^verbatim>\<open>size_t\<close> request; when no call fails it has moved every byte, and what it returns
  is the request converted to \<^verbatim>\<open>ssize_t\<close>.\<close>

lemma write_loop_contract:
  assumes b: "bytes \<le> SIZE_MAX" and c: "write_contract wr"
  shows "tot \<le> bytes \<Longrightarrow>
   \<exists>r s' new.
      write_all_loop (logged_write wr) buffer bytes tot (s, log) = Some (r, (s', log @ new)) \<and>
      write_all_loop wr buffer bytes tot s = Some (r, s') \<and>
      length new \<le> bytes - tot \<and>
      ((\<exists>x\<in>set new. x \<le> 0) \<longrightarrow> r = - 1) \<and>
      ((\<forall>x\<in>set new. 0 < x) \<longrightarrow> r = ssize_of bytes \<and> int tot + sum_list new = int bytes) \<and>
      (write_progress wr \<longrightarrow> (\<forall>x\<in>set new. 0 < x))"
proof (induction "bytes - tot" arbitrary: tot s log rule: less_induct)
  case less
  show ?case
  proof (cases "tot < bytes")
    case False
    then have e: "tot = bytes" using less.prems by simp
    have "write_all_loop (logged_write wr) buffer bytes tot (s, log) = Some (ssize_of tot, (s, log @ []))"
      using False by (simp add: write_all_loop_done)
    moreover have "write_all_loop wr buffer bytes tot s = Some (ssize_of tot, s)"
      using False by (simp add: write_all_loop_done)
    ultimately show ?thesis using e
      by (intro exI [of _ "ssize_of tot"] exI [of _ s] exI [of _ "[]"]) simp
  next
    case True
    obtain w s1 where w: "wr s (drop tot buffer) (bytes - tot) = (w, s1)"
      by (cases "wr s (drop tot buffer) (bytes - tot)")
    then have lw: "logged_write wr (s, log) (drop tot buffer) (bytes - tot) = (w, (s1, log @ [w]))"
      by (simp add: logged_write_def)
    have pr: "write_progress wr \<longrightarrow> 0 < w"
      using w True unfolding write_progress_def by (metis fst_conv zero_less_diff)
    show ?thesis
    proof (cases "w \<le> 0")
      case neg: True
      have "write_all_loop (logged_write wr) buffer bytes tot (s, log) = Some (- 1, (s1, log @ [w]))"
        using write_all_loop_step [where wr = "logged_write wr" and s = "(s, log)", OF True lw] neg
        by simp
      moreover have "write_all_loop wr buffer bytes tot s = Some (- 1, s1)"
        using write_all_loop_step [where wr = wr and s = s, OF True w] neg by simp
      moreover have "length [w] \<le> bytes - tot" using True by simp
      ultimately show ?thesis using neg pr
        by (intro exI [of _ "- 1"] exI [of _ s1] exI [of _ "[w]"]) simp
    next
      case pos: False
      have wle: "w \<le> int (bytes - tot)" using c w unfolding write_contract_def by (metis fst_conv)
      then have le: "tot + nat w \<le> bytes" using True pos by linarith
      have nowrap: "int tot + w \<le> int SIZE_MAX" using le b pos by linarith
      have sa: "size_add tot w = tot + nat w"
        using pos nowrap by (simp add: size_add_small)
      have dec: "bytes - (tot + nat w) < bytes - tot" using True pos by linarith
      from less.hyps [OF dec le, of s1 "log @ [w]"]
      obtain r s' new where
        l: "write_all_loop (logged_write wr) buffer bytes (tot + nat w) (s1, log @ [w]) =
              Some (r, (s', (log @ [w]) @ new))"
        and u: "write_all_loop wr buffer bytes (tot + nat w) s1 = Some (r, s')"
        and len: "length new \<le> bytes - (tot + nat w)"
        and fail: "(\<exists>x\<in>set new. x \<le> 0) \<longrightarrow> r = - 1"
        and succ: "(\<forall>x\<in>set new. 0 < x) \<longrightarrow>
                     r = ssize_of bytes \<and> int (tot + nat w) + sum_list new = int bytes"
        and prg: "write_progress wr \<longrightarrow> (\<forall>x\<in>set new. 0 < x)"
        by blast
      have l': "write_all_loop (logged_write wr) buffer bytes tot (s, log) = Some (r, (s', log @ (w # new)))"
        using write_all_loop_step [where wr = "logged_write wr" and s = "(s, log)", OF True lw] pos l sa
        by simp
      have u': "write_all_loop wr buffer bytes tot s = Some (r, s')"
        using write_all_loop_step [where wr = wr and s = s, OF True w] pos u sa by simp
      have len': "length (w # new) \<le> bytes - tot" using len True pos by simp
      have fail': "(\<exists>x\<in>set (w # new). x \<le> 0) \<longrightarrow> r = - 1" using fail pos by simp
      have succ': "(\<forall>x\<in>set (w # new). 0 < x) \<longrightarrow>
                     r = ssize_of bytes \<and> int tot + sum_list (w # new) = int bytes"
        using succ pos by auto
      have prg': "write_progress wr \<longrightarrow> (\<forall>x\<in>set (w # new). 0 < x)" using prg pos by simp
      from l' u' len' fail' succ' prg' show ?thesis by blast
    qed
  qed
qed

lemma read_loop_contract:
  assumes b: "bytes \<le> SIZE_MAX" and c: "read_contract rd"
  shows "tot \<le> bytes \<Longrightarrow>
   \<exists>r buf' s' new.
      read_all_loop (logged_read rd) bytes tot buffer (s, log) = Some (r, buf', (s', log @ new)) \<and>
      read_all_loop rd bytes tot buffer s = Some (r, buf', s') \<and>
      length new \<le> bytes - tot \<and>
      ((\<exists>x\<in>set new. x \<le> 0) \<longrightarrow> r = - 1) \<and>
      ((\<forall>x\<in>set new. 0 < x) \<longrightarrow> r = ssize_of bytes \<and> int tot + sum_list new = int bytes) \<and>
      (read_progress rd \<longrightarrow> (\<forall>x\<in>set new. 0 < x))"
proof (induction "bytes - tot" arbitrary: tot buffer s log rule: less_induct)
  case less
  show ?case
  proof (cases "tot < bytes")
    case False
    then have e: "tot = bytes" using less.prems by simp
    have "read_all_loop (logged_read rd) bytes tot buffer (s, log) =
            Some (ssize_of tot, buffer, (s, log @ []))"
      using False by (simp add: read_all_loop_done)
    moreover have "read_all_loop rd bytes tot buffer s = Some (ssize_of tot, buffer, s)"
      using False by (simp add: read_all_loop_done)
    ultimately show ?thesis using e
      by (intro exI [of _ "ssize_of tot"] exI [of _ buffer] exI [of _ s] exI [of _ "[]"]) simp
  next
    case True
    obtain w got s1 where w: "rd s (bytes - tot) = ((w, got), s1)"
      by (cases "rd s (bytes - tot)") auto
    then have lw: "logged_read rd (s, log) (bytes - tot) = ((w, got), (s1, log @ [w]))"
      by (simp add: logged_read_def)
    have pr: "read_progress rd \<longrightarrow> 0 < w"
      using w True unfolding read_progress_def by (metis fst_conv zero_less_diff)
    show ?thesis
    proof (cases "w \<le> 0")
      case neg: True
      have "read_all_loop (logged_read rd) bytes tot buffer (s, log) =
              Some (- 1, buffer, (s1, log @ [w]))"
        using read_all_loop_step [where rd = "logged_read rd" and s = "(s, log)", OF True lw] neg
        by simp
      moreover have "read_all_loop rd bytes tot buffer s = Some (- 1, buffer, s1)"
        using read_all_loop_step [where rd = rd and s = s, OF True w] neg by simp
      moreover have "length [w] \<le> bytes - tot" using True by simp
      ultimately show ?thesis using neg pr
        by (intro exI [of _ "- 1"] exI [of _ buffer] exI [of _ s1] exI [of _ "[w]"]) simp
    next
      case pos: False
      have wle: "w \<le> int (bytes - tot)" using c w unfolding read_contract_def by (metis fst_conv)
      then have le: "tot + nat w \<le> bytes" using True pos by linarith
      have nowrap: "int tot + w \<le> int SIZE_MAX" using le b pos by linarith
      have sa: "size_add tot w = tot + nat w"
        using pos nowrap by (simp add: size_add_small)
      have dec: "bytes - (tot + nat w) < bytes - tot" using True pos by linarith
      from less.hyps [OF dec le, of "buffer @ got" s1 "log @ [w]"]
      obtain r buf' s' new where
        l: "read_all_loop (logged_read rd) bytes (tot + nat w) (buffer @ got) (s1, log @ [w]) =
              Some (r, buf', (s', (log @ [w]) @ new))"
        and u: "read_all_loop rd bytes (tot + nat w) (buffer @ got) s1 = Some (r, buf', s')"
        and len: "length new \<le> bytes - (tot + nat w)"
        and fail: "(\<exists>x\<in>set new. x \<le> 0) \<longrightarrow> r = - 1"
        and succ: "(\<forall>x\<in>set new. 0 < x) \<longrightarrow>
                     r = ssize_of bytes \<and> int (tot + nat w) + sum_list new = int bytes"
        and prg: "read_progress rd \<longrightarrow> (\<forall>x\<in>set new. 0 < x)"
        by blast
      have l': "read_all_loop (logged_read rd) bytes tot buffer (s, log) =
                  Some (r, buf', (s', log @ (w # new)))"
        using read_all_loop_step [where rd = "logged_read rd" and s = "(s, log)", OF True lw] pos l sa
        by simp
      have u': "read_all_loop rd bytes tot buffer s = Some (r, buf', s')"
        using read_all_loop_step [where rd = rd and s = s, OF True w] pos u sa by simp
      have len': "length (w # new) \<le> bytes - tot" using len True pos by simp
      have fail': "(\<exists>x\<in>set (w # new). x \<le> 0) \<longrightarrow> r = - 1" using fail pos by simp
      have succ': "(\<forall>x\<in>set (w # new). 0 < x) \<longrightarrow>
                     r = ssize_of bytes \<and> int tot + sum_list (w # new) = int bytes"
        using succ pos by auto
      have prg': "read_progress rd \<longrightarrow> (\<forall>x\<in>set (w # new). 0 < x)" using prg pos by simp
      from l' u' len' fail' succ' prg' show ?thesis by blast
    qed
  qed
qed

lemma sys_write_contract: "write_contract (sys_write sched)"
  by (auto simp: write_contract_def sys_write_def)

lemma sys_read_contract: "read_contract (sys_read sched)"
  by (auto simp: read_contract_def sys_read_def)

lemma sys_write_progress:
  assumes "\<forall>j. 0 < sched j"
  shows "write_progress (sys_write sched)"
  unfolding write_progress_def
proof (intro allI impI)
  fix s :: stream and src :: "byte list" and n :: nat
  assume n: "0 < n"
  obtain k flight where s: "s = (k, flight)" by (cases s)
  have "\<not> sched k \<le> 0" using assms by (simp add: not_le)
  then show "0 < fst (sys_write sched s src n)"
    using n by (simp add: s sys_write_def min_def)
qed

lemma sys_write_total:
  "bytes \<le> SIZE_MAX \<Longrightarrow> \<exists>r st'. write_all (sys_write sched) st buffer bytes = Some (r, st')"
  using write_loop_contract [where wr = "sys_write sched" and bytes = bytes and tot = 0
          and buffer = buffer and s = st and log = "[]", OF _ sys_write_contract]
  unfolding write_all_def by blast

lemma sys_read_total:
  "bytes \<le> SIZE_MAX \<Longrightarrow> \<exists>r buf st'. read_all (sys_read sched) st bytes = Some (r, buf, st')"
  using read_loop_contract [where rd = "sys_read sched" and bytes = bytes and tot = 0
          and buffer = "[]" and s = st and log = "[]", OF _ sys_read_contract]
  unfolding read_all_def by blast

lemma one_byte_source_progress: "read_progress (\<lambda>(s::nat) n. ((int (min 1 n), replicate (min 1 n) 0), Suc s))"
  by (simp add: read_progress_def)

lemma one_byte_source_contract: "read_contract (\<lambda>(s::nat) n. ((int (min 1 n), replicate (min 1 n) 0), Suc s))"
  by (simp add: read_contract_def)

lemma sys_write_one_loop:
  assumes b: "bytes \<le> SIZE_MAX"
  shows "tot \<le> bytes \<Longrightarrow>
   write_all_loop (sys_write (\<lambda>_. 1)) buffer bytes tot (k, flight) =
     Some (ssize_of bytes, (k + (bytes - tot), flight @ take (bytes - tot) (drop tot buffer)))"
proof (induction "bytes - tot" arbitrary: tot k flight rule: less_induct)
  case less
  show ?case
  proof (cases "tot < bytes")
    case False
    with less.prems show ?thesis by (simp add: write_all_loop_done)
  next
    case True
    have st: "sys_write (\<lambda>_. 1) (k, flight) (drop tot buffer) (bytes - tot) =
                (1, (Suc k, flight @ take 1 (drop tot buffer)))"
      using True by (simp add: sys_write_def min_def)
    have sa: "size_add tot 1 = tot + 1"
      using True b size_add_small [of 1 tot] by simp
    have n1: "\<not> (1::int) \<le> 0" by simp
    have dec: "bytes - (tot + 1) < bytes - tot" using True by simp
    have le: "tot + 1 \<le> bytes" using True by simp
    have "write_all_loop (sys_write (\<lambda>_. 1)) buffer bytes tot (k, flight) =
          write_all_loop (sys_write (\<lambda>_. 1)) buffer bytes (tot + 1)
            (Suc k, flight @ take 1 (drop tot buffer))"
      using write_all_loop_step [where wr = "sys_write (\<lambda>_. 1)" and s = "(k, flight)", OF True st]
      by (simp only: n1 if_False sa)
    also have "\<dots> = Some (ssize_of bytes, (Suc k + (bytes - (tot + 1)),
             (flight @ take 1 (drop tot buffer)) @ take (bytes - (tot + 1)) (drop (tot + 1) buffer)))"
      by (rule less.hyps [OF dec le])
    finally have e: "write_all_loop (sys_write (\<lambda>_. 1)) buffer bytes tot (k, flight) =
          Some (ssize_of bytes, (Suc k + (bytes - (tot + 1)),
             (flight @ take 1 (drop tot buffer)) @ take (bytes - (tot + 1)) (drop (tot + 1) buffer)))" .
    have "take 1 (drop tot buffer) @ take (bytes - (tot + 1)) (drop (tot + 1) buffer)
                   = take (bytes - tot) (drop tot buffer)"
    proof -
      have "take (1 + (bytes - (tot + 1))) (drop tot buffer) =
            take 1 (drop tot buffer) @ take (bytes - (tot + 1)) (drop 1 (drop tot buffer))"
        by (rule take_add)
      moreover have "1 + (bytes - (tot + 1)) = bytes - tot" using True by simp
      ultimately show ?thesis by (simp add: add.commute)
    qed
    then show ?thesis using e True by simp
  qed
qed

lemma sys_read_one_loop:
  assumes b: "bytes \<le> SIZE_MAX"
  shows "tot \<le> bytes \<Longrightarrow> bytes - tot \<le> length flight \<Longrightarrow>
   read_all_loop (sys_read (\<lambda>_. 1)) bytes tot buffer (k, flight) =
     Some (ssize_of bytes, buffer @ take (bytes - tot) flight,
           (k + (bytes - tot), drop (bytes - tot) flight))"
proof (induction "bytes - tot" arbitrary: tot buffer k flight rule: less_induct)
  case less
  show ?case
  proof (cases "tot < bytes")
    case False
    with less.prems show ?thesis by (simp add: read_all_loop_done)
  next
    case True
    have a1: "Suc 0 \<le> bytes - tot" using True by simp
    have a2: "Suc 0 \<le> length flight" using a1 less.prems(2) by linarith
    have st: "sys_read (\<lambda>_. 1) (k, flight) (bytes - tot) =
                ((1, take 1 flight), (Suc k, drop 1 flight))"
      using a1 a2 by (simp add: sys_read_def min_def)
    have sa: "size_add tot 1 = tot + 1"
      using True b size_add_small [of 1 tot] by simp
    have n1: "\<not> (1::int) \<le> 0" by simp
    obtain m where m: "bytes - tot = Suc m" using a1 by (cases "bytes - tot") auto
    have m': "bytes - (tot + 1) = m" using m by simp
    have dec: "bytes - (tot + 1) < bytes - tot" using True by simp
    have p1: "tot + 1 \<le> bytes" using True by simp
    have p2: "bytes - (tot + 1) \<le> length (drop 1 flight)"
      unfolding m' using less.prems(2) m by simp
    have "read_all_loop (sys_read (\<lambda>_. 1)) bytes tot buffer (k, flight) =
          read_all_loop (sys_read (\<lambda>_. 1)) bytes (tot + 1) (buffer @ take 1 flight) (Suc k, drop 1 flight)"
      using read_all_loop_step [where rd = "sys_read (\<lambda>_. 1)" and s = "(k, flight)", OF True st]
      by (simp only: n1 if_False sa)
    also have "\<dots> = Some (ssize_of bytes, (buffer @ take 1 flight) @ take (bytes - (tot + 1)) (drop 1 flight),
             (Suc k + (bytes - (tot + 1)), drop (bytes - (tot + 1)) (drop 1 flight)))"
      by (rule less.hyps [OF dec p1 p2])
    also have "\<dots> = Some (ssize_of bytes, buffer @ take (bytes - tot) flight,
             (k + (bytes - tot), drop (bytes - tot) flight))"
      unfolding m m' using take_add [of 1 m flight] by simp
    finally show ?thesis .
  qed
qed

lemma sys_write_ssize: "\<forall>k. sched k \<le> int SSIZE_MAX \<Longrightarrow> write_ssize (sys_write sched)"
  unfolding write_ssize_def
proof (intro allI)
  fix s :: stream and src :: "byte list" and n :: nat
  assume a: "\<forall>k. sched k \<le> int SSIZE_MAX"
  obtain k flight where s: "s = (k, flight)" by (cases s)
  have "int (min (nat (sched k)) n) \<le> int SSIZE_MAX \<or> sched k \<le> 0" using a [rule_format, of k] by linarith
  moreover have "sched k \<le> int SSIZE_MAX" using a by simp
  ultimately show "fst (sys_write sched s src n) \<le> int SSIZE_MAX"
    by (auto simp: s sys_write_def)
qed

lemma sys_read_ssize: "\<forall>k. sched k \<le> int SSIZE_MAX \<Longrightarrow> read_ssize (sys_read sched)"
  unfolding read_ssize_def
proof (intro allI)
  fix s :: stream and n :: nat
  assume a: "\<forall>k. sched k \<le> int SSIZE_MAX"
  obtain k flight where s: "s = (k, flight)" by (cases s)
  have "int (min (min (nat (sched k)) n) (length flight)) \<le> int SSIZE_MAX \<or> sched k \<le> 0"
    using a [rule_format, of k] by linarith
  moreover have "sched k \<le> int SSIZE_MAX" using a by simp
  ultimately show "fst (fst (sys_read sched s n)) \<le> int SSIZE_MAX"
    by (auto simp: s sys_read_def)
qed

subsection \<open>Claims about write\_all and read\_all\<close>

text \<open>
  C6, as stated, fails for requests above \<open>SSIZE_MAX\<close>, where the \<^verbatim>\<open>size_t\<close> total no
  longer fits the \<^verbatim>\<open>ssize_t\<close> that is returned. For a request of \<open>SIZE_MAX\<close> bytes, served
  by three calls that each return a positive result within the request, \<open>write_all\<close> and
  \<open>read_all\<close> return \<open>-1\<close> although no call returned a result \<open>\<le> 0\<close>; for a request of
  \<open>2 ^ 63\<close> bytes, served by two calls, the value returned on success is \<open>- (2 ^ 63)\<close>, not
  the requested count.
\<close>

theorem write_all_read_all_fail_without_failing_call:
  "write_contract (sys_write (\<lambda>_. 2 ^ 63 - 1)) \<and>
   write_all (logged_write (sys_write (\<lambda>_. 2 ^ 63 - 1))) ((0, []), []) [] SIZE_MAX =
     Some (- 1, ((3, []), [2 ^ 63 - 1, 2 ^ 63 - 1, 1])) \<and>
   write_all (sys_write (\<lambda>_. 2 ^ 63 - 1)) (0, []) [] SIZE_MAX = Some (- 1, (3, [])) \<and>
   read_contract (\<lambda>(s::nat) n. ((int (min n (2 ^ 63 - 1)), []), Suc s)) \<and>
   read_all (logged_read (\<lambda>(s::nat) n. ((int (min n (2 ^ 63 - 1)), []), Suc s))) (0, []) SIZE_MAX =
     Some (- 1, [], (3, [2 ^ 63 - 1, 2 ^ 63 - 1, 1])) \<and>
   read_all (\<lambda>(s::nat) n. ((int (min n (2 ^ 63 - 1)), []), Suc s)) 0 SIZE_MAX = Some (- 1, [], 3) \<and>
   write_all (logged_write (sys_write (\<lambda>_. 2 ^ 62))) ((0, []), []) [] (2 ^ 63) =
     Some (- (2 ^ 63), ((2, []), [2 ^ 62, 2 ^ 62]))"
proof -
  have c: "read_contract (\<lambda>(s::nat) n. ((int (min n (2 ^ 63 - 1)), []), Suc s))"
    by (simp add: read_contract_def)
  show ?thesis
    using sys_write_contract [of "\<lambda>_. 2 ^ 63 - 1"] c
    by (simp add: write_all_def read_all_def write_all_loop.simps read_all_loop.simps
          logged_write_def logged_read_def sys_write_def SIZE_MAX_def size_add_def ssize_of_def)
qed

text \<open>
  C6, amended to requests of at most \<open>SSIZE_MAX\<close> bytes. For every such request and every
  primitive (its results being \<^verbatim>\<open>ssize_t\<close> values) \<open>write_all\<close> and \<open>read_all\<close> return, and
  they return \<open>-1\<close> exactly when some single call of the primitive returned a result
  \<open>\<le> 0\<close>; that call is the last one (every earlier call was positive), so a positive
  partial result is never an error. On success the value returned is exactly the requested
  byte count, the sum of the single results, for every primitive that never moves more than
  it is asked to. The log records the result of each call the loop makes; logging does not
  change what the loop returns.
\<close>

theorem write_all_read_all_fail_iff_nonpositive_call:
  fixes wr :: "'s write_prim" and rd :: "'t read_prim"
  shows
  "bytes \<le> SSIZE_MAX \<longrightarrow>
   (write_ssize wr \<longrightarrow>
      (\<exists>r s' log.
         write_all (logged_write wr) (s, []) buffer bytes = Some (r, (s', log)) \<and>
         write_all wr s buffer bytes = Some (r, s') \<and>
         (r = - 1 \<longleftrightarrow> (\<exists>x\<in>set log. x \<le> 0)) \<and>
         (\<forall>x\<in>set (butlast log). 0 < x) \<and>
         (write_contract wr \<longrightarrow> r \<noteq> - 1 \<longrightarrow> r = int bytes \<and> sum_list log = int bytes))) \<and>
   (read_ssize rd \<longrightarrow>
      (\<exists>r buf t' log.
         read_all (logged_read rd) (t, []) bytes = Some (r, buf, (t', log)) \<and>
         read_all rd t bytes = Some (r, buf, t') \<and>
         (r = - 1 \<longleftrightarrow> (\<exists>x\<in>set log. x \<le> 0)) \<and>
         (\<forall>x\<in>set (butlast log). 0 < x) \<and>
         (read_contract rd \<longrightarrow> r \<noteq> - 1 \<longrightarrow> r = int bytes \<and> sum_list log = int bytes)))"
proof (intro impI conjI)
  assume b: "bytes \<le> SSIZE_MAX" and t: "write_ssize wr"
  have z: "(0::nat) < SIZE_MAX" by (simp add: SIZE_MAX_def)
  from write_loop_log [OF b t z, of buffer s "[]"]
  show "\<exists>r s' log.
         write_all (logged_write wr) (s, []) buffer bytes = Some (r, (s', log)) \<and>
         write_all wr s buffer bytes = Some (r, s') \<and>
         (r = - 1 \<longleftrightarrow> (\<exists>x\<in>set log. x \<le> 0)) \<and>
         (\<forall>x\<in>set (butlast log). 0 < x) \<and>
         (write_contract wr \<longrightarrow> r \<noteq> - 1 \<longrightarrow> r = int bytes \<and> sum_list log = int bytes)"
    unfolding write_all_def by simp blast
next
  assume b: "bytes \<le> SSIZE_MAX" and t: "read_ssize rd"
  have z: "(0::nat) < SIZE_MAX" by (simp add: SIZE_MAX_def)
  from read_loop_log [OF b t z, of "[]" t "[]"]
  show "\<exists>r buf t' log.
         read_all (logged_read rd) (t, []) bytes = Some (r, buf, (t', log)) \<and>
         read_all rd t bytes = Some (r, buf, t') \<and>
         (r = - 1 \<longleftrightarrow> (\<exists>x\<in>set log. x \<le> 0)) \<and>
         (\<forall>x\<in>set (butlast log). 0 < x) \<and>
         (read_contract rd \<longrightarrow> r \<noteq> - 1 \<longrightarrow> r = int bytes \<and> sum_list log = int bytes)"
    unfolding read_all_def by simp blast
qed

theorem write_all_read_all_fail_iff_nonpositive_call_witness:
  "(3::nat) \<le> SSIZE_MAX \<and>
   write_ssize (sys_write (\<lambda>k. if k = 0 then 2 else 1)) \<and>
   write_contract (sys_write (\<lambda>k. if k = 0 then 2 else 1)) \<and>
   write_all (logged_write (sys_write (\<lambda>k. if k = 0 then 2 else 1))) ((0, []), []) [1, 2, 3] 3
     = Some (3, ((2, [1, 2, 3]), [2, 1])) \<and>
   write_all (sys_write (\<lambda>k. if k = 0 then 2 else 1)) (0, []) [1, 2, 3] 3
     = Some (3, (2, [1, 2, 3])) \<and>
   read_ssize (sys_read (\<lambda>k. if k = 0 then 1 else 0)) \<and>
   read_all (logged_read (sys_read (\<lambda>k. if k = 0 then 1 else 0))) ((0, [5, 6]), []) 3
     = Some (- 1, [5], ((2, [6]), [1, 0])) \<and>
   read_all (sys_read (\<lambda>k. if k = 0 then 1 else 0)) (0, [5, 6]) 3 = Some (- 1, [5], (2, [6]))"
proof -
  have a: "write_ssize (sys_write (\<lambda>k. if k = 0 then 2 else 1))"
    by (rule sys_write_ssize) (simp add: SSIZE_MAX_def)
  have b: "read_ssize (sys_read (\<lambda>k. if k = 0 then 1 else 0))"
    by (rule sys_read_ssize) (simp add: SSIZE_MAX_def)
  have c: "(3::nat) \<le> SSIZE_MAX" by (simp add: SSIZE_MAX_def)
  show ?thesis
    using write_all_read_all_fail_iff_nonpositive_call
            [where wr = "sys_write (\<lambda>k. if k = 0 then 2 else 1)" and s = "(0, [])"
               and buffer = "[1, 2, 3]" and bytes = 3
               and rd = "sys_read (\<lambda>k. if k = 0 then 1 else 0)" and t = "(0, [5, 6])"]
          a b c sys_write_contract [of "\<lambda>k. if k = 0 then 2 else 1"]
    by (simp add: write_all_def read_all_def write_all_loop.simps read_all_loop.simps
          logged_write_def logged_read_def sys_write_def sys_read_def size_add_def ssize_of_def)
qed

text \<open>
  C7. When every call of the primitive moves at least one byte and never more than it was
  asked for, the loops end for every requested byte count (every \<^verbatim>\<open>size_t\<close>) and the
  transfer is complete: every call was positive, the results add up to exactly \<open>bytes\<close>,
  and at most \<open>bytes\<close> calls were made. The value returned is the count converted to
  \<^verbatim>\<open>ssize_t\<close>, which is the count itself up to \<open>SSIZE_MAX\<close>. For requests up to
  \<open>SSIZE_MAX\<close> the loops end without failure for every primitive that moves at least one
  byte per call. In particular a stream that moves exactly one byte per call delivers all
  \<open>bytes\<close> bytes in \<open>bytes\<close> calls, for writing and for reading.
\<close>

theorem write_all_read_all_complete_when_progress:
  fixes wr :: "'s write_prim" and rd :: "'t read_prim"
  shows
  "bytes \<le> SIZE_MAX \<longrightarrow>
   (write_contract wr \<and> write_progress wr \<longrightarrow>
      (\<exists>s' log.
         write_all (logged_write wr) (s, []) buffer bytes = Some (ssize_of bytes, (s', log)) \<and>
         write_all wr s buffer bytes = Some (ssize_of bytes, s') \<and>
         (\<forall>x\<in>set log. 0 < x) \<and> sum_list log = int bytes \<and> length log \<le> bytes)) \<and>
   (read_contract rd \<and> read_progress rd \<longrightarrow>
      (\<exists>buf t' log.
         read_all (logged_read rd) (t, []) bytes = Some (ssize_of bytes, buf, (t', log)) \<and>
         read_all rd t bytes = Some (ssize_of bytes, buf, t') \<and>
         (\<forall>x\<in>set log. 0 < x) \<and> sum_list log = int bytes \<and> length log \<le> bytes)) \<and>
   (bytes \<le> SSIZE_MAX \<longrightarrow> ssize_of bytes = int bytes \<and> ssize_of bytes \<noteq> - 1) \<and>
   (bytes \<le> SSIZE_MAX \<and> write_ssize wr \<and> write_progress wr \<longrightarrow>
      (\<exists>r s'. write_all wr s buffer bytes = Some (r, s') \<and> r \<noteq> - 1)) \<and>
   (bytes \<le> SSIZE_MAX \<and> read_ssize rd \<and> read_progress rd \<longrightarrow>
      (\<exists>r buf t'. read_all rd t bytes = Some (r, buf, t') \<and> r \<noteq> - 1)) \<and>
   write_all (sys_write (\<lambda>_. 1)) (k, flight) buffer bytes =
     Some (ssize_of bytes, (k + bytes, flight @ take bytes buffer)) \<and>
   (bytes \<le> length flight \<longrightarrow>
      read_all (sys_read (\<lambda>_. 1)) (k, flight) bytes =
        Some (ssize_of bytes, take bytes flight, (k + bytes, drop bytes flight)))"
proof (intro impI)
  assume b: "bytes \<le> SIZE_MAX"
  have z: "(0::nat) < SIZE_MAX" by (simp add: SIZE_MAX_def)
  have A: "write_contract wr \<and> write_progress wr \<longrightarrow>
      (\<exists>s' log.
         write_all (logged_write wr) (s, []) buffer bytes = Some (ssize_of bytes, (s', log)) \<and>
         write_all wr s buffer bytes = Some (ssize_of bytes, s') \<and>
         (\<forall>x\<in>set log. 0 < x) \<and> sum_list log = int bytes \<and> length log \<le> bytes)"
  proof
    assume h: "write_contract wr \<and> write_progress wr"
    from write_loop_contract [OF b, of wr 0 buffer s "[]"] h
    obtain r s' new where
      l: "write_all_loop (logged_write wr) buffer bytes 0 (s, []) = Some (r, (s', new))"
      and u: "write_all_loop wr buffer bytes 0 s = Some (r, s')"
      and len: "length new \<le> bytes"
      and succ: "(\<forall>x\<in>set new. 0 < x) \<longrightarrow> r = ssize_of bytes \<and> sum_list new = int bytes"
      and prg: "\<forall>x\<in>set new. 0 < x"
      by auto
    from succ prg have "r = ssize_of bytes" "sum_list new = int bytes" by blast+
    with l u len prg show "\<exists>s' log.
         write_all (logged_write wr) (s, []) buffer bytes = Some (ssize_of bytes, (s', log)) \<and>
         write_all wr s buffer bytes = Some (ssize_of bytes, s') \<and>
         (\<forall>x\<in>set log. 0 < x) \<and> sum_list log = int bytes \<and> length log \<le> bytes"
      unfolding write_all_def by blast
  qed
  have B: "read_contract rd \<and> read_progress rd \<longrightarrow>
      (\<exists>buf t' log.
         read_all (logged_read rd) (t, []) bytes = Some (ssize_of bytes, buf, (t', log)) \<and>
         read_all rd t bytes = Some (ssize_of bytes, buf, t') \<and>
         (\<forall>x\<in>set log. 0 < x) \<and> sum_list log = int bytes \<and> length log \<le> bytes)"
  proof
    assume h: "read_contract rd \<and> read_progress rd"
    from read_loop_contract [OF b, of rd 0 "[]" t "[]"] h
    obtain r buf t' new where
      l: "read_all_loop (logged_read rd) bytes 0 [] (t, []) = Some (r, buf, (t', new))"
      and u: "read_all_loop rd bytes 0 [] t = Some (r, buf, t')"
      and len: "length new \<le> bytes"
      and succ: "(\<forall>x\<in>set new. 0 < x) \<longrightarrow> r = ssize_of bytes \<and> sum_list new = int bytes"
      and prg: "\<forall>x\<in>set new. 0 < x"
      by auto
    from succ prg have "r = ssize_of bytes" "sum_list new = int bytes" by blast+
    with l u len prg show "\<exists>buf t' log.
         read_all (logged_read rd) (t, []) bytes = Some (ssize_of bytes, buf, (t', log)) \<and>
         read_all rd t bytes = Some (ssize_of bytes, buf, t') \<and>
         (\<forall>x\<in>set log. 0 < x) \<and> sum_list log = int bytes \<and> length log \<le> bytes"
      unfolding read_all_def by blast
  qed
  have C: "bytes \<le> SSIZE_MAX \<longrightarrow> ssize_of bytes = int bytes \<and> ssize_of bytes \<noteq> - 1"
    by (simp add: ssize_of_small)
  have D: "bytes \<le> SSIZE_MAX \<and> write_ssize wr \<and> write_progress wr \<longrightarrow>
      (\<exists>r s'. write_all wr s buffer bytes = Some (r, s') \<and> r \<noteq> - 1)"
  proof
    assume h: "bytes \<le> SSIZE_MAX \<and> write_ssize wr \<and> write_progress wr"
    then have h1: "bytes \<le> SSIZE_MAX" and h2: "write_ssize wr" and h3: "write_progress wr"
      by simp_all
    from write_loop_log [OF h1 h2 z, of buffer s "[]"]
    obtain r s' and new :: "int list" where u: "write_all_loop wr buffer bytes 0 s = Some (r, s')"
      and iff: "r = - 1 \<longleftrightarrow> (\<exists>x\<in>set new. x \<le> 0)"
      and prg: "write_progress wr \<longrightarrow> (\<forall>x\<in>set new. 0 < x)"
      by blast
    have "r \<noteq> - 1" using iff prg h3 by auto
    with u show "\<exists>r s'. write_all wr s buffer bytes = Some (r, s') \<and> r \<noteq> - 1"
      unfolding write_all_def by blast
  qed
  have E: "bytes \<le> SSIZE_MAX \<and> read_ssize rd \<and> read_progress rd \<longrightarrow>
      (\<exists>r buf t'. read_all rd t bytes = Some (r, buf, t') \<and> r \<noteq> - 1)"
  proof
    assume h: "bytes \<le> SSIZE_MAX \<and> read_ssize rd \<and> read_progress rd"
    then have h1: "bytes \<le> SSIZE_MAX" and h2: "read_ssize rd" and h3: "read_progress rd"
      by simp_all
    from read_loop_log [OF h1 h2 z, of "[]" t "[]"]
    obtain r buf t' and new :: "int list" where u: "read_all_loop rd bytes 0 [] t = Some (r, buf, t')"
      and iff: "r = - 1 \<longleftrightarrow> (\<exists>x\<in>set new. x \<le> 0)"
      and prg: "read_progress rd \<longrightarrow> (\<forall>x\<in>set new. 0 < x)"
      by blast
    have "r \<noteq> - 1" using iff prg h3 by auto
    with u show "\<exists>r buf t'. read_all rd t bytes = Some (r, buf, t') \<and> r \<noteq> - 1"
      unfolding read_all_def by blast
  qed
  have F: "write_all (sys_write (\<lambda>_. 1)) (k, flight) buffer bytes =
     Some (ssize_of bytes, (k + bytes, flight @ take bytes buffer))"
    unfolding write_all_def using sys_write_one_loop [OF b, of 0 buffer k flight] by simp
  have G: "bytes \<le> length flight \<longrightarrow>
      read_all (sys_read (\<lambda>_. 1)) (k, flight) bytes =
        Some (ssize_of bytes, take bytes flight, (k + bytes, drop bytes flight))"
    unfolding read_all_def using sys_read_one_loop [OF b, of 0 flight "[]" k] by simp
  from A B C D E F G show
   "(write_contract wr \<and> write_progress wr \<longrightarrow>
      (\<exists>s' log.
         write_all (logged_write wr) (s, []) buffer bytes = Some (ssize_of bytes, (s', log)) \<and>
         write_all wr s buffer bytes = Some (ssize_of bytes, s') \<and>
         (\<forall>x\<in>set log. 0 < x) \<and> sum_list log = int bytes \<and> length log \<le> bytes)) \<and>
   (read_contract rd \<and> read_progress rd \<longrightarrow>
      (\<exists>buf t' log.
         read_all (logged_read rd) (t, []) bytes = Some (ssize_of bytes, buf, (t', log)) \<and>
         read_all rd t bytes = Some (ssize_of bytes, buf, t') \<and>
         (\<forall>x\<in>set log. 0 < x) \<and> sum_list log = int bytes \<and> length log \<le> bytes)) \<and>
   (bytes \<le> SSIZE_MAX \<longrightarrow> ssize_of bytes = int bytes \<and> ssize_of bytes \<noteq> - 1) \<and>
   (bytes \<le> SSIZE_MAX \<and> write_ssize wr \<and> write_progress wr \<longrightarrow>
      (\<exists>r s'. write_all wr s buffer bytes = Some (r, s') \<and> r \<noteq> - 1)) \<and>
   (bytes \<le> SSIZE_MAX \<and> read_ssize rd \<and> read_progress rd \<longrightarrow>
      (\<exists>r buf t'. read_all rd t bytes = Some (r, buf, t') \<and> r \<noteq> - 1)) \<and>
   write_all (sys_write (\<lambda>_. 1)) (k, flight) buffer bytes =
     Some (ssize_of bytes, (k + bytes, flight @ take bytes buffer)) \<and>
   (bytes \<le> length flight \<longrightarrow>
      read_all (sys_read (\<lambda>_. 1)) (k, flight) bytes =
        Some (ssize_of bytes, take bytes flight, (k + bytes, drop bytes flight)))"
    by blast
qed

theorem write_all_read_all_complete_when_progress_witness:
  "(3::nat) \<le> SIZE_MAX \<and> (3::nat) \<le> SSIZE_MAX \<and>
   write_progress (sys_write (\<lambda>_. 1)) \<and> write_contract (sys_write (\<lambda>_. 1)) \<and>
   write_ssize (sys_write (\<lambda>_. 1)) \<and>
   write_all (logged_write (sys_write (\<lambda>_. 1))) ((0, [9]), []) [1, 2, 3] 3 =
     Some (3, ((3, [9, 1, 2, 3]), [1, 1, 1])) \<and>
   write_all (sys_write (\<lambda>_. 1)) (0, [9]) [1, 2, 3] 3 = Some (3, (3, [9, 1, 2, 3])) \<and>
   read_progress (\<lambda>(s::nat) n. ((int (min 1 n), replicate (min 1 n) 0), Suc s)) \<and>
   read_contract (\<lambda>(s::nat) n. ((int (min 1 n), replicate (min 1 n) 0), Suc s)) \<and>
   read_all (\<lambda>(s::nat) n. ((int (min 1 n), replicate (min 1 n) 0), Suc s)) 0 3 =
     Some (3, [0, 0, 0], 3) \<and>
   (3::nat) \<le> length [9, 1, 2, 3 :: byte] \<and>
   read_all (sys_read (\<lambda>_. 1)) (0, [9, 1, 2, 3]) 3 = Some (3, [9, 1, 2], (3, [3]))"
proof -
  have a: "write_ssize (sys_write (\<lambda>_. 1))"
    by (rule sys_write_ssize) (simp add: SSIZE_MAX_def)
  have c: "(3::nat) \<le> SIZE_MAX" "(3::nat) \<le> SSIZE_MAX" by (simp_all add: SIZE_MAX_def SSIZE_MAX_def)
  show ?thesis
    using write_all_read_all_complete_when_progress
            [where wr = "sys_write (\<lambda>_. 1)" and s = "(0, [9])" and buffer = "[1, 2, 3]" and bytes = 3
               and rd = "\<lambda>(s::nat) n. ((int (min 1 n), replicate (min 1 n) 0), Suc s)" and t = 0
               and k = 0 and flight = "[9, 1, 2, 3]"]
          a c sys_write_progress [of "\<lambda>_. 1"] sys_write_contract [of "\<lambda>_. 1"]
          one_byte_source_progress one_byte_source_contract
    by (simp add: write_all_def read_all_def write_all_loop.simps read_all_loop.simps
          logged_write_def sys_write_def sys_read_def size_add_def ssize_of_def)
qed

subsection \<open>Facts about the shared-memory program\<close>

declare child_store_loop.simps [simp del] parent_print_loop.simps [simp del]

lemma in_segment_iff: "in_segment i \<longleftrightarrow> i < 256"
  by (auto simp: in_segment_def sizeof_int_def BUFFER_SIZE_def)

lemma shm_limit_eq: "shm_limit = 255"
  by (simp add: shm_limit_def sizeof_int_def BUFFER_SIZE_def)

lemma cleanup_shm_keep:
  "cleanup_shm env ptr shm_fd 0 w = (cs, w') \<Longrightarrow>
   w' = w \<and> Sys_shm_unlink \<notin> set cs \<and> accesses cs = [] \<and> printed cs = []"
  by (auto simp: cleanup_shm_def Let_def split: if_splits)

lemma cleanup_shm_trace:
  "cleanup_shm env ptr shm_fd u w = (cs, w') \<Longrightarrow>
   accesses cs = [] \<and> printed cs = [] \<and> segment w' = segment w \<and> \<not> (\<exists>e\<in>set cs. is_wait e)"
  by (auto simp: cleanup_shm_def Let_def sys_shm_unlink_def split: if_splits prod.splits)

lemma cleanup_shm_unlinks:
  "cleanup_shm env ptr shm_fd 1 w = (cs, w') \<Longrightarrow>
   Sys_shm_unlink \<in> set cs \<and> SHM_NAME \<notin> shm_names w'"
  by (auto simp: cleanup_shm_def Let_def sys_shm_unlink_def split: if_splits prod.splits)

lemma child_store_loop_done:
  "\<not> i < num \<Longrightarrow> child_store_loop env ptr shm_fd i num inp w = (Returns, [], w)"
  by (simp add: child_store_loop.simps)

lemma child_store_loop_fail:
  "i < num \<Longrightarrow> scanf_d inp = None \<Longrightarrow>
   child_store_loop env ptr shm_fd i num inp w =
     (case cleanup_shm env ptr shm_fd 0 w of
        (cs, w') \<Rightarrow> (Exits EXIT_FAILURE, Stderr ''Invalid input.'' # cs, w'))"
  by (simp add: child_store_loop.simps [of env ptr shm_fd i num inp w])

lemma child_store_loop_step:
  "i < num \<Longrightarrow> scanf_d inp = Some (v, rest) \<Longrightarrow>
   child_store_loop env ptr shm_fd i num inp w =
     (case shm_store ptr (segment w) (i + 1) v of
        None \<Rightarrow> (Faults, [], w)
      | Some seg' \<Rightarrow>
          (case child_store_loop env ptr shm_fd (i + 1) num rest (w\<lparr>segment := seg'\<rparr>) of
             (f, es, w') \<Rightarrow> (f, Shm_store (i + 1) v # es, w')))"
  by (simp add: child_store_loop.simps [of env ptr shm_fd i num inp w])

lemma parent_print_loop_done:
  "\<not> i < num \<Longrightarrow> parent_print_loop ptr seg i num = (Returns, [])"
  by (simp add: parent_print_loop.simps)

lemma parent_print_loop_step:
  "i < num \<Longrightarrow>
   parent_print_loop ptr seg i num =
     (case shm_load ptr seg (i + 1) of
        None \<Rightarrow> (Faults, [])
      | Some v \<Rightarrow>
          (case parent_print_loop ptr seg (i + 1) num of
             (f, es) \<Rightarrow> (f, Shm_load (i + 1) # Stdout_int v # es)))"
  by (simp add: parent_print_loop.simps [of ptr seg i num])

text \<open>Every exit of the child's loop: no unlink, namespace untouched, stores only in
  \<open>i+1 .. num\<close>, nothing below \<open>i + 1\<close> changed, and no fault when \<open>num\<close> fits.\<close>

lemma child_store_loop_paths:
  "child_store_loop env ptr shm_fd i num inp w = (f, es, w') \<Longrightarrow>
   Sys_shm_unlink \<notin> set es \<and> shm_names w' = shm_names w \<and> printed es = [] \<and>
   \<not> (\<exists>e\<in>set es. is_wait e) \<and>
   (\<forall>j\<in>set (accesses es). i < j \<and> j \<le> num) \<and>
   (\<forall>j\<le>i. segment w' j = segment w j) \<and>
   (ptr = Mapped \<longrightarrow> num \<le> 255 \<longrightarrow> f \<noteq> Faults)"
proof (induction env ptr shm_fd i num inp w arbitrary: f es w' rule: child_store_loop.induct)
  case (1 env ptr shm_fd i num inp w)
  show ?case
  proof (cases "i < num")
    case False
    with "1.prems" show ?thesis by (simp add: child_store_loop_done)
  next
    case True
    show ?thesis
    proof (cases "scanf_d inp")
      case None
      obtain cs w1 where c: "cleanup_shm env ptr shm_fd 0 w = (cs, w1)" by (metis surj_pair)
      from cleanup_shm_keep [OF c] cleanup_shm_trace [OF c] "1.prems" True None c
      show ?thesis by (auto simp: child_store_loop_fail)
    next
      case (Some p)
      obtain v rest where p: "p = (v, rest)" by (cases p)
      note sc = Some [unfolded p]
      show ?thesis
      proof (cases "shm_store ptr (segment w) (i + 1) v")
        case None
        have "ptr = Mapped \<longrightarrow> num \<le> 255 \<longrightarrow> False"
          using None True by (auto simp: shm_store_def in_segment_iff split: if_splits)
        with "1.prems" True sc None show ?thesis
          by (auto simp: child_store_loop_step)
      next
        case (Some seg')
        obtain f1 es1 w2 where r: "child_store_loop env ptr shm_fd (i + 1) num rest (w\<lparr>segment := seg'\<rparr>) = (f1, es1, w2)"
          by (metis surj_pair)
        have seg': "seg' = (segment w)(i + 1 := v)"
          using Some by (auto simp: shm_store_def split: if_splits)
        from "1.IH" [OF True sc refl Some r]
        have ih: "Sys_shm_unlink \<notin> set es1" "shm_names w2 = shm_names w" "printed es1 = []"
          "\<not> (\<exists>e\<in>set es1. is_wait e)"
          "\<forall>j\<in>set (accesses es1). i + 1 < j \<and> j \<le> num"
          "\<forall>j\<le>i + 1. segment w2 j = seg' j" "ptr = Mapped \<longrightarrow> num \<le> 255 \<longrightarrow> f1 \<noteq> Faults"
          by auto
        have res: "f = f1" "es = Shm_store (i + 1) v # es1" "w' = w2"
          using "1.prems" True sc Some r by (auto simp: child_store_loop_step)
        have "\<forall>j\<le>i. segment w' j = segment w j"
          using ih(6) seg' res(3) by auto
        moreover have "\<forall>j\<in>set (accesses es). i < j \<and> j \<le> num"
          using ih(5) res(2) True by auto
        ultimately show ?thesis using ih res by simp
      qed
    qed
  qed
qed

lemma child_store_loop_complete:
  "length arr = num - i \<Longrightarrow> num \<le> 255 \<Longrightarrow>
   \<exists>es w'. child_store_loop env Mapped shm_fd i num (map Some arr @ rest) w = (Returns, es, w') \<and>
     accesses es = [Suc i..<Suc num] \<and>
     (\<forall>j. i < j \<and> j \<le> num \<longrightarrow> segment w' j = arr ! (j - Suc i)) \<and>
     (\<forall>j\<le>i. segment w' j = segment w j)"
proof (induction arr arbitrary: i w)
  case Nil
  then have "\<not> i < num" by simp
  then show ?case by (auto simp: child_store_loop_done)
next
  case (Cons v arr)
  then have lt: "i < num" by simp
  have sc: "scanf_d (map Some (v # arr) @ rest) = Some (v, map Some arr @ rest)" by simp
  have st: "shm_store Mapped (segment w) (i + 1) v = Some ((segment w)(i + 1 := v))"
    using lt Cons.prems(2) by (simp add: shm_store_def in_segment_iff)
  have len: "length arr = num - Suc i" using Cons.prems(1) by simp
  from Cons.IH [OF len Cons.prems(2), of "w\<lparr>segment := (segment w)(i + 1 := v)\<rparr>"]
  obtain es w' where r: "child_store_loop env Mapped shm_fd (Suc i) num (map Some arr @ rest)
        (w\<lparr>segment := (segment w)(i + 1 := v)\<rparr>) = (Returns, es, w')"
    and acc: "accesses es = [Suc (Suc i)..<Suc num]"
    and seg: "\<forall>j. Suc i < j \<and> j \<le> num \<longrightarrow> segment w' j = arr ! (j - Suc (Suc i))"
    and low: "\<forall>j\<le>Suc i. segment w' j = ((segment w)(i + 1 := v)) j"
    by auto
  have eq: "child_store_loop env Mapped shm_fd i num (map Some (v # arr) @ rest) w =
            (Returns, Shm_store (i + 1) v # es, w')"
    using child_store_loop_step [OF lt sc, of env Mapped shm_fd w] st r by simp
  have a: "accesses (Shm_store (i + 1) v # es) = [Suc i..<Suc num]"
    using acc lt by (simp add: upt_conv_Cons)
  have b: "\<forall>j. i < j \<and> j \<le> num \<longrightarrow> segment w' j = (v # arr) ! (j - Suc i)"
  proof (intro allI impI)
    fix j assume j: "i < j \<and> j \<le> num"
    show "segment w' j = (v # arr) ! (j - Suc i)"
    proof (cases "j = Suc i")
      case True
      then show ?thesis using low by simp
    next
      case False
      then have "Suc i < j" using j by simp
      then have "segment w' j = arr ! (j - Suc (Suc i))" using seg j by simp
      moreover have "j - Suc i = Suc (j - Suc (Suc i))" using \<open>Suc i < j\<close> by simp
      ultimately show ?thesis by simp
    qed
  qed
  have c: "\<forall>j\<le>i. segment w' j = segment w j" using low by simp
  from eq a b c show ?case by blast
qed

lemma parent_print_loop_paths:
  "parent_print_loop ptr seg i num = (f, es) \<Longrightarrow>
   Sys_shm_unlink \<notin> set es \<and> \<not> (\<exists>e\<in>set es. is_wait e) \<and>
   (\<forall>j\<in>set (accesses es). i < j \<and> j \<le> num) \<and> (f = Returns \<or> f = Faults) \<and>
   (ptr = Mapped \<longrightarrow> num \<le> 255 \<longrightarrow>
      f = Returns \<and> accesses es = [Suc i..<Suc num] \<and> printed es = map seg [Suc i..<Suc num])"
proof (induction ptr seg i num arbitrary: f es rule: parent_print_loop.induct)
  case (1 ptr seg i num)
  show ?case
  proof (cases "i < num")
    case False
    with "1.prems" show ?thesis by (simp add: parent_print_loop_done)
  next
    case True
    show ?thesis
    proof (cases "shm_load ptr seg (i + 1)")
      case None
      have "ptr = Mapped \<longrightarrow> num \<le> 255 \<longrightarrow> False"
        using None True by (auto simp: shm_load_def in_segment_iff split: if_splits)
      with "1.prems" True None show ?thesis
        by (auto simp: parent_print_loop_step)
    next
      case (Some v)
      obtain f1 es1 where r: "parent_print_loop ptr seg (i + 1) num = (f1, es1)"
        by (metis surj_pair)
      have v: "v = seg (i + 1)" using Some by (auto simp: shm_load_def split: if_splits)
      note ih = "1.IH" [OF True Some r]
      have ih1: "Sys_shm_unlink \<notin> set es1" using ih by blast
      have ih2: "\<not> (\<exists>e\<in>set es1. is_wait e)" using ih by blast
      have ih3: "\<forall>j\<in>set (accesses es1). i + 1 < j \<and> j \<le> num" using ih by blast
      have ih5: "f1 = Returns \<or> f1 = Faults" using ih by blast
      have ih4: "ptr = Mapped \<longrightarrow> num \<le> 255 \<longrightarrow>
           f1 = Returns \<and> accesses es1 = [Suc (i + 1)..<Suc num] \<and>
           printed es1 = map seg [Suc (i + 1)..<Suc num]"
        using ih by blast
      have res: "f = f1" "es = Shm_load (i + 1) # Stdout_int v # es1"
        using "1.prems" True Some r by (simp_all add: parent_print_loop_step)
      have up: "[Suc i..<Suc num] = Suc i # [Suc (Suc i)..<Suc num]"
        using True by (simp add: upt_conv_Cons)
      have g1: "Sys_shm_unlink \<notin> set es" using ih1 res(2) by simp
      have g2: "\<not> (\<exists>e\<in>set es. is_wait e)" using ih2 res(2) by simp
      have g3: "\<forall>j\<in>set (accesses es). i < j \<and> j \<le> num"
      proof
        fix j assume "j \<in> set (accesses es)"
        then have "j = Suc i \<or> j \<in> set (accesses es1)" using res(2) by simp
        then show "i < j \<and> j \<le> num" using ih3 True by auto
      qed
      have g4: "ptr = Mapped \<longrightarrow> num \<le> 255 \<longrightarrow>
           f = Returns \<and> accesses es = [Suc i..<Suc num] \<and> printed es = map seg [Suc i..<Suc num]"
      proof (intro impI)
        assume "ptr = Mapped" "num \<le> 255"
        with ih4 have a: "f1 = Returns" "accesses es1 = [Suc (Suc i)..<Suc num]"
          "printed es1 = map seg [Suc (Suc i)..<Suc num]" by simp_all
        show "f = Returns \<and> accesses es = [Suc i..<Suc num] \<and> printed es = map seg [Suc i..<Suc num]"
          unfolding up res using a v by simp
      qed
      have g5: "f = Returns \<or> f = Faults" using ih5 res(1) by simp
      from g1 g2 g3 g4 g5 show ?thesis by blast
    qed
  qed
qed

lemma loads_after_wait_prefix:
  "loads_after_wait es \<longleftrightarrow>
   (\<forall>pre e post. es = pre @ e # post \<longrightarrow> is_access e \<longrightarrow> (\<exists>x\<in>set pre. is_wait x))"
proof (induction es)
  case Nil
  then show ?case by simp
next
  case (Cons a es)
  show ?case
  proof (cases "is_wait a")
    case True
    have "\<exists>x\<in>set pre. is_wait x" if "a # es = pre @ e # post" "is_access e" for pre e post
    proof (cases pre)
      case Nil
      with that True show ?thesis by (cases a) auto
    next
      case (Cons p ps)
      with that True show ?thesis by auto
    qed
    with True show ?thesis by auto
  next
    case False
    show ?thesis
    proof (cases "is_access a")
      case True
      have "\<not> (\<forall>pre e post. a # es = pre @ e # post \<longrightarrow> is_access e \<longrightarrow> (\<exists>x\<in>set pre. is_wait x))"
        using True by (auto intro!: exI [of _ "[]"])
      with True False show ?thesis by simp
    next
      case na: False
      have "(\<forall>pre e post. a # es = pre @ e # post \<longrightarrow> is_access e \<longrightarrow> (\<exists>x\<in>set pre. is_wait x)) \<longleftrightarrow>
            (\<forall>pre e post. es = pre @ e # post \<longrightarrow> is_access e \<longrightarrow> (\<exists>x\<in>set pre. is_wait x))"
        (is "?L \<longleftrightarrow> ?R")
      proof
        assume l: ?L
        show ?R
        proof (intro allI impI)
          fix pre e post assume "es = pre @ e # post" "is_access e"
          then have "a # es = (a # pre) @ e # post" by simp
          with l \<open>is_access e\<close> have "\<exists>x\<in>set (a # pre). is_wait x" by blast
          with False show "\<exists>x\<in>set pre. is_wait x" by simp
        qed
      next
        assume r: ?R
        show ?L
        proof (intro allI impI)
          fix pre e post assume eq: "a # es = pre @ e # post" and ac: "is_access e"
          show "\<exists>x\<in>set pre. is_wait x"
          proof (cases pre)
            case Nil
            with eq ac na show ?thesis by simp
          next
            case (Cons p ps)
            with eq have "es = ps @ e # post" by simp
            with r ac have "\<exists>x\<in>set ps. is_wait x" by blast
            with Cons show ?thesis by simp
          qed
        qed
      qed
      with False na Cons.IH show ?thesis by simp
    qed
  qed
qed

lemma child_process_shm_paths:
  assumes "child_process_shm env ptr shm_fd inp w = (f, es, w')"
  shows "Sys_shm_unlink \<notin> set es \<and> shm_names w' = shm_names w \<and>
         (\<forall>j\<in>set (accesses es). in_segment j) \<and> (ptr = Mapped \<longrightarrow> f \<noteq> Faults)"
proof (cases "scanf_d inp")
  case None
  obtain cs w1 where c: "cleanup_shm env ptr shm_fd 0 w = (cs, w1)" by (metis surj_pair)
  from assms None c cleanup_shm_keep [OF c] show ?thesis
    by (auto simp: child_process_shm_def)
next
  case (Some p)
  obtain num rest where p: "p = (num, rest)" by (cases p)
  note sc = Some [unfolded p]
  show ?thesis
  proof (cases "sint num \<le> 0 \<or> sint num > shm_limit")
    case True
    obtain cs w1 where c: "cleanup_shm env ptr shm_fd 0 w = (cs, w1)" by (metis surj_pair)
    from assms sc True c cleanup_shm_keep [OF c] show ?thesis
      by (auto simp: child_process_shm_def)
  next
    case False
    then have rng: "0 < sint num" "sint num \<le> 255" by (simp_all add: shm_limit_eq)
    then have n255: "nat (sint num) \<le> 255" by simp
    show ?thesis
    proof (cases "shm_store ptr (segment w) 0 num")
      case None
      have "ptr \<noteq> Mapped" using None by (auto simp: shm_store_def in_segment_iff split: if_splits)
      with assms sc False None show ?thesis
        by (auto simp: child_process_shm_def)
    next
      case (Some seg')
      obtain f1 es1 w1 where r: "child_store_loop env ptr shm_fd 0 (nat (sint num)) rest (w\<lparr>segment := seg'\<rparr>) = (f1, es1, w1)"
        by (metis surj_pair)
      note lp = child_store_loop_paths [OF r]
      have l1: "Sys_shm_unlink \<notin> set es1" using lp by blast
      have l2: "shm_names w1 = shm_names w" using lp by simp
      have l3: "\<forall>j\<in>set (accesses es1). in_segment j"
      proof
        fix j assume "j \<in> set (accesses es1)"
        then have "j \<le> nat (sint num)" using lp by blast
        then show "in_segment j" using n255 by (simp add: in_segment_iff)
      qed
      have l4: "ptr = Mapped \<longrightarrow> f1 \<noteq> Faults" using lp n255 by blast
      have i0: "in_segment 0" by (simp add: in_segment_iff)
      show ?thesis
      proof (cases "f1 = Returns")
        case True
        obtain cs w2 where c: "cleanup_shm env ptr shm_fd 0 w1 = (cs, w2)" by (metis surj_pair)
        have res: "f = Returns" "w' = w2"
            "es = [Stdout ''Enter number of elements: '', Shm_store 0 num,
                   Stdout ''Enter %d numbers: ''] @ es1 @ cs"
          using assms sc False Some r True c by (simp_all add: child_process_shm_def)
        note k = cleanup_shm_keep [OF c]
        have "accesses es = 0 # accesses es1 @ accesses cs"
          unfolding res(3) by (induction es1 rule: accesses.induct) simp_all
        then have "\<forall>j\<in>set (accesses es). in_segment j" using l3 i0 k by auto
        moreover have "Sys_shm_unlink \<notin> set es" unfolding res(3) using l1 k by simp
        moreover have "shm_names w' = shm_names w" using res(2) k l2 by simp
        ultimately show ?thesis using res(1) by simp
      next
        case nr: False
        have res: "f = f1" "w' = w1"
            "es = [Stdout ''Enter number of elements: '', Shm_store 0 num,
                   Stdout ''Enter %d numbers: ''] @ es1"
          using assms sc False Some r nr by (simp_all add: child_process_shm_def)
        have "accesses es = 0 # accesses es1" unfolding res(3) by simp
        then have "\<forall>j\<in>set (accesses es). in_segment j" using l3 i0 by auto
        moreover have "Sys_shm_unlink \<notin> set es" unfolding res(3) using l1 by simp
        ultimately show ?thesis using res l2 l4 by simp
      qed
    qed
  qed
qed

lemma accesses_append: "accesses (xs @ ys) = accesses xs @ accesses ys"
  by (induction xs rule: accesses.induct) simp_all

lemma printed_append: "printed (xs @ ys) = printed xs @ printed ys"
  by (induction xs rule: printed.induct) simp_all

lemma parent_process_shm_starts_with_wait:
  "\<exists>es. fst (snd (parent_process_shm env ptr shm_fd w)) = Sys_wait (wait_ret env) # es"
  by (simp add: parent_process_shm_def split: prod.splits option.splits)

lemma parent_process_shm_wait_nonzero:
  assumes "wait_ret env \<noteq> 0" and "parent_process_shm env ptr shm_fd w = (f, es, w')"
  shows "f = Exits EXIT_FAILURE \<and> accesses es = [] \<and> printed es = [] \<and>
         SHM_NAME \<notin> shm_names w' \<and> segment w' = segment w"
proof -
  obtain cs w1 where c: "cleanup_shm env ptr shm_fd 1 w = (cs, w1)" by (metis surj_pair)
  from assms c cleanup_shm_trace [OF c] cleanup_shm_unlinks [OF c] show ?thesis
    by (auto simp: parent_process_shm_def)
qed

lemma parent_process_shm_paths:
  assumes "parent_process_shm env ptr shm_fd w = (f, es, w')"
  shows "(\<forall>j\<in>set (accesses es). in_segment j) \<and> (ptr = Mapped \<longrightarrow> f \<noteq> Faults) \<and>
         (f \<noteq> Faults \<longrightarrow> Sys_shm_unlink \<in> set es \<and> SHM_NAME \<notin> shm_names w')"
proof (cases "wait_ret env \<noteq> 0")
  case True
  obtain cs w1 where c: "cleanup_shm env ptr shm_fd 1 w = (cs, w1)" by (metis surj_pair)
  from assms True c cleanup_shm_trace [OF c] cleanup_shm_unlinks [OF c] show ?thesis
    by (auto simp: parent_process_shm_def)
next
  case False
  then have w0: "wait_ret env = 0" by simp
  show ?thesis
  proof (cases "shm_load ptr (segment w) 0")
    case None
    have "ptr \<noteq> Mapped" using None by (auto simp: shm_load_def in_segment_iff split: if_splits)
    with assms w0 None show ?thesis by (auto simp: parent_process_shm_def)
  next
    case (Some num)
    have i0: "in_segment 0" by (simp add: in_segment_iff)
    show ?thesis
    proof (cases "sint num \<le> 0 \<or> sint num > shm_limit")
      case True
      obtain cs w1 where c: "cleanup_shm env ptr shm_fd 1 w = (cs, w1)" by (metis surj_pair)
      have res: "f = Exits EXIT_FAILURE" "w' = w1"
        "es = [Sys_wait (wait_ret env), Shm_load 0,
               Stderr ''Invalid number of elements in shared memory''] @ cs"
        using assms w0 Some True c by (simp_all add: parent_process_shm_def)
      have "accesses es = [0]" unfolding res(3) using cleanup_shm_trace [OF c]
        by (simp add: accesses_append)
      then show ?thesis using res cleanup_shm_unlinks [OF c] i0 by simp
    next
      case False
      then have rng: "0 < sint num" "sint num \<le> 255" by (simp_all add: shm_limit_eq)
      then have n255: "nat (sint num) \<le> 255" by simp
      obtain f1 es1 where r: "parent_print_loop ptr (segment w) 0 (nat (sint num)) = (f1, es1)"
        by (metis surj_pair)
      note lp = parent_print_loop_paths [OF r]
      have l3: "\<forall>j\<in>set (accesses es1). in_segment j"
      proof
        fix j assume "j \<in> set (accesses es1)"
        then have "j \<le> nat (sint num)" using lp by blast
        then show "in_segment j" using n255 by (simp add: in_segment_iff)
      qed
      have l4: "ptr = Mapped \<longrightarrow> f1 = Returns" using lp n255 by blast
      show ?thesis
      proof (cases "f1 = Returns")
        case True
        obtain cs w1 where c: "cleanup_shm env ptr shm_fd 1 w = (cs, w1)" by (metis surj_pair)
        have res: "f = Returns" "w' = w1"
          "es = [Sys_wait (wait_ret env), Shm_load 0] @ es1 @ Stdout_newline # cs"
          using assms w0 Some False r True c by (simp_all add: parent_process_shm_def)
        have "accesses es = 0 # accesses es1" unfolding res(3) using cleanup_shm_trace [OF c]
          by (simp add: accesses_append)
        then have "\<forall>j\<in>set (accesses es). in_segment j" using l3 i0 by auto
        then show ?thesis using res cleanup_shm_unlinks [OF c] by simp
      next
        case nr: False
        have res: "f = f1" "w' = w"
          "es = [Sys_wait (wait_ret env), Shm_load 0] @ es1"
          using assms w0 Some False r nr by (simp_all add: parent_process_shm_def)
        have "accesses es = 0 # accesses es1" unfolding res(3) by simp
        then have a: "\<forall>j\<in>set (accesses es). in_segment j" using l3 i0 by auto
        have "ptr \<noteq> Mapped" using l4 nr by blast
        moreover have "f = Faults" using lp nr res(1) by blast
        ultimately show ?thesis using a by simp
      qed
    qed
  qed
qed


lemma parent_process_shm_ok:
  assumes "wait_ret env = 0" and "1 \<le> sint (segment w 0)" and "sint (segment w 0) \<le> 255"
  shows "\<exists>es w'. parent_process_shm env Mapped shm_fd w = (Returns, es, w') \<and>
           printed es = map (segment w) [1..<Suc (nat (sint (segment w 0)))] \<and>
           accesses es = [0..<Suc (nat (sint (segment w 0)))] \<and>
           SHM_NAME \<notin> shm_names w'"
proof -
  let ?n = "nat (sint (segment w 0))"
  have ld: "shm_load Mapped (segment w) 0 = Some (segment w 0)"
    by (simp add: shm_load_def in_segment_iff)
  have ok: "\<not> (sint (segment w 0) \<le> 0 \<or> sint (segment w 0) > shm_limit)"
    using assms by (simp add: shm_limit_eq)
  have n255: "?n \<le> 255" using assms by simp
  obtain f1 es1 where r: "parent_print_loop Mapped (segment w) 0 ?n = (f1, es1)"
    by (metis surj_pair)
  from parent_print_loop_paths [OF r] n255
  have lp: "f1 = Returns" "accesses es1 = [Suc 0..<Suc ?n]"
    "printed es1 = map (segment w) [Suc 0..<Suc ?n]" by blast+
  obtain cs w1 where c: "cleanup_shm env Mapped shm_fd 1 w = (cs, w1)" by (metis surj_pair)
  have res: "parent_process_shm env Mapped shm_fd w =
      (Returns, [Sys_wait (wait_ret env), Shm_load 0] @ es1 @ Stdout_newline # cs, w1)"
    using assms(1) ld ok r lp(1) c by (simp add: parent_process_shm_def)
  have "printed ([Sys_wait (wait_ret env), Shm_load 0] @ es1 @ Stdout_newline # cs) =
        map (segment w) [1..<Suc ?n]"
    using lp(3) cleanup_shm_trace [OF c] by (simp add: printed_append)
  moreover have "accesses ([Sys_wait (wait_ret env), Shm_load 0] @ es1 @ Stdout_newline # cs) =
        [0..<Suc ?n]"
    using lp(2) cleanup_shm_trace [OF c] by (simp add: accesses_append upt_conv_Cons)
  ultimately show ?thesis using res cleanup_shm_unlinks [OF c] by simp
qed

lemma child_process_shm_complete:
  assumes "1 \<le> sint num" and "sint num \<le> 255" and "length arr = nat (sint num)"
  shows "\<exists>es w'. child_process_shm env Mapped shm_fd (Some num # map Some arr @ rest) w = (Returns, es, w') \<and>
           accesses es = [0..<Suc (nat (sint num))] \<and>
           segment w' 0 = num \<and>
           (\<forall>j. 0 < j \<and> j \<le> nat (sint num) \<longrightarrow> segment w' j = arr ! (j - 1)) \<and>
           shm_names w' = shm_names w"
proof -
  let ?n = "nat (sint num)"
  have ok: "\<not> (sint num \<le> 0 \<or> sint num > shm_limit)" using assms by (simp add: shm_limit_eq)
  have st: "shm_store Mapped (segment w) 0 num = Some ((segment w)(0 := num))"
    by (simp add: shm_store_def in_segment_iff)
  have n255: "?n \<le> 255" using assms by simp
  have len: "length arr = ?n - 0" using assms by simp
  from child_store_loop_complete [OF len n255, of env shm_fd rest "w\<lparr>segment := (segment w)(0 := num)\<rparr>"]
  obtain es1 w1 where r: "child_store_loop env Mapped shm_fd 0 ?n (map Some arr @ rest)
        (w\<lparr>segment := (segment w)(0 := num)\<rparr>) = (Returns, es1, w1)"
    and acc: "accesses es1 = [Suc 0..<Suc ?n]"
    and seg: "\<forall>j. 0 < j \<and> j \<le> ?n \<longrightarrow> segment w1 j = arr ! (j - Suc 0)"
    and low: "\<forall>j\<le>0. segment w1 j = (segment (w\<lparr>segment := (segment w)(0 := num)\<rparr>)) j"
    by blast
  have nm: "shm_names w1 = shm_names w" using child_store_loop_paths [OF r] by simp
  obtain cs w2 where c: "cleanup_shm env Mapped shm_fd 0 w1 = (cs, w2)" by (metis surj_pair)
  note k = cleanup_shm_keep [OF c]
  have w2: "w2 = w1" using k by blast
  have res: "child_process_shm env Mapped shm_fd (Some num # map Some arr @ rest) w =
      (Returns, [Stdout ''Enter number of elements: '', Shm_store 0 num,
                 Stdout ''Enter %d numbers: ''] @ es1 @ cs, w2)"
    using ok st r c by (simp add: child_process_shm_def)
  have a: "accesses ([Stdout ''Enter number of elements: '', Shm_store 0 num,
                 Stdout ''Enter %d numbers: ''] @ es1 @ cs) = [0..<Suc ?n]"
    using acc k by (simp add: accesses_append upt_conv_Cons)
  have s0: "segment w2 0 = num" using low w2 by simp
  have sj: "\<forall>j. 0 < j \<and> j \<le> ?n \<longrightarrow> segment w2 j = arr ! (j - 1)" using seg w2 by simp
  from res a s0 sj nm w2 show ?thesis by simp
qed

lemma no_access_loads_after_wait: "accesses es = [] \<Longrightarrow> loads_after_wait es"
  by (induction es rule: accesses.induct) simp_all

lemma loads_after_wait_append:
  "accesses xs = [] \<Longrightarrow> loads_after_wait ys \<Longrightarrow> loads_after_wait (xs @ ys)"
  by (induction xs rule: accesses.induct) simp_all

lemma main_shm_parent_trace:
  assumes "fork_ret env \<noteq> 0"
  shows "loads_after_wait (snd (fst (main_shm env inp w)))"
proof -
  let ?w1 = "w\<lparr>shm_names := insert SHM_NAME (shm_names w)\<rparr>"
  obtain cs1 w1 where c1: "cleanup_shm env NULL (shm_open_ret env) 1 ?w1 = (cs1, w1)"
    by (metis surj_pair)
  obtain cs2 w2 where c2: "cleanup_shm env (mmap_ret env) (shm_open_ret env) 1 ?w1 = (cs2, w2)"
    by (metis surj_pair)
  obtain cf ce w3 where ch: "child_process_shm env (mmap_ret env) (shm_open_ret env) inp ?w1 = (cf, ce, w3)"
    by (metis surj_pair)
  obtain pf pe w4 where pa: "parent_process_shm env (mmap_ret env) (shm_open_ret env) w3 = (pf, pe, w4)"
    by (metis surj_pair)
  have a1: "accesses cs1 = []" using cleanup_shm_trace [OF c1] by simp
  have a2: "accesses cs2 = []" using cleanup_shm_trace [OF c2] by simp
  have lp: "loads_after_wait pe"
    using parent_process_shm_starts_with_wait [of env "mmap_ret env" "shm_open_ret env" w3] pa
    by auto
  have l1: "loads_after_wait cs1" by (rule no_access_loads_after_wait [OF a1])
  have l2: "loads_after_wait cs2" by (rule no_access_loads_after_wait [OF a2])
  show ?thesis
    using assms c1 c2 ch pa l1 l2 lp
    by (simp add: main_shm_def after_fork_shm_def)
qed

subsection \<open>Claims about the shared-memory program\<close>

text \<open>
  C1. In every run of the shared-memory consumer, whatever \<^verbatim>\<open>wait\<close> returns and whatever
  the segment holds, no slot of the segment is loaded before the return of \<^verbatim>\<open>wait\<close>:
  every access event of the parent's trace has a wait event among the events before it.
  The same holds for the whole trace of the process that runs \<open>main\<close> and becomes the
  parent.
\<close>
theorem shm_consumer_reads_only_after_wait:
  "loads_after_wait (fst (snd (parent_process_shm env ptr shm_fd w))) \<and>
   (\<forall>pre e post. fst (snd (parent_process_shm env ptr shm_fd w)) = pre @ e # post \<longrightarrow>
      is_access e \<longrightarrow> (\<exists>x\<in>set pre. is_wait x)) \<and>
   (fork_ret env \<noteq> 0 \<longrightarrow> loads_after_wait (snd (fst (main_shm env inp w0))))"
proof -
  obtain es where "fst (snd (parent_process_shm env ptr shm_fd w)) = Sys_wait (wait_ret env) # es"
    using parent_process_shm_starts_with_wait by blast
  then have "loads_after_wait (fst (snd (parent_process_shm env ptr shm_fd w)))" by simp
  then show ?thesis using loads_after_wait_prefix main_shm_parent_trace by blast
qed

theorem shm_consumer_reads_only_after_wait_witness:
  "fst (snd (parent_process_shm (ok_env\<lparr>wait_ret := 0\<rparr>) Mapped 3
          \<lparr>segment = (\<lambda>_. 0)(0 := 1, 1 := 42), shm_names = {SHM_NAME}\<rparr>)) =
     [Sys_wait 0] @ Shm_load 0 #
       [Shm_load 1, Stdout_int 42, Stdout_newline, Sys_munmap, Sys_close, Sys_shm_unlink] \<and>
   is_access (Shm_load 0) \<and> (\<exists>x\<in>set [Sys_wait 0]. is_wait x)"
  using shm_consumer_reads_only_after_wait
          [where env = "ok_env\<lparr>wait_ret := 0\<rparr>" and ptr = Mapped and shm_fd = 3
             and w = "\<lparr>segment = (\<lambda>_. 0)(0 := 1, 1 := 42), shm_names = {SHM_NAME}\<rparr>"]
  by (simp add: parent_process_shm_def ok_env_def shm_load_def in_segment_iff shm_limit_eq
        parent_print_loop.simps cleanup_shm_def sys_shm_unlink_def)

text \<open>
  C2. The end-to-end scenario on the code: the producer stores \<open>{count = 1, payload = [42]}\<close>
  and exits normally; \<^verbatim>\<open>wait\<close> succeeds and returns the child's process id, which is not
  0, so the parent's test \<^verbatim>\<open>wait(NULL) != 0\<close> takes the error branch. The parent prints
  nothing, loads nothing and exits with \<open>EXIT_FAILURE\<close>; the message stays unread in the
  segment; the name is removed.
\<close>
theorem shm_session_parent_fails_after_successful_wait:
  "fst (main_shm ok_env [Some 1, Some 42] fresh_shm) =
     (Exits EXIT_FAILURE,
      [Sys_shm_open, Sys_ftruncate, Sys_mmap, Sys_fork, Sys_wait 4242, Perror ''wait'',
       Sys_munmap, Sys_close, Sys_shm_unlink]) \<and>
   fst (snd (main_shm ok_env [Some 1, Some 42] fresh_shm)) =
     Some (Exits EXIT_SUCCESS,
           [Stdout ''Enter number of elements: '', Shm_store 0 1, Stdout ''Enter %d numbers: '',
            Shm_store 1 42, Sys_munmap, Sys_close]) \<and>
   segment (snd (snd (main_shm ok_env [Some 1, Some 42] fresh_shm))) 0 = 1 \<and>
   segment (snd (snd (main_shm ok_env [Some 1, Some 42] fresh_shm))) 1 = 42 \<and>
   printed (snd (fst (main_shm ok_env [Some 1, Some 42] fresh_shm))) = [] \<and>
   accesses (snd (fst (main_shm ok_env [Some 1, Some 42] fresh_shm))) = [] \<and>
   SHM_NAME \<notin> shm_names (snd (snd (main_shm ok_env [Some 1, Some 42] fresh_shm)))"
  by (simp add: main_shm_def after_fork_shm_def child_process_shm_def parent_process_shm_def
        ok_env_def fresh_shm_def shm_store_def in_segment_iff shm_limit_eq main_return_def
        child_store_loop.simps cleanup_shm_def sys_shm_unlink_def)

text \<open>
  C10. With a mapped segment, every store of the producer and every load of the consumer
  falls inside the 1024-byte mapping and neither process faults, on every input. For a
  count within \<open>1 .. 255\<close> the producer touches exactly the slots \<open>0 .. num\<close>, and so does
  the consumer; slot 255 is the last one of the mapping, so the largest message fills it
  exactly: \<open>4 * (1 + 255) = 1024\<close>.
\<close>
theorem shm_accesses_in_bounds:
  "(\<forall>i\<in>set (accesses (fst (snd (child_process_shm env Mapped shm_fd inp w)))). in_segment i) \<and>
   fst (child_process_shm env Mapped shm_fd inp w) \<noteq> Faults \<and>
   (\<forall>i\<in>set (accesses (fst (snd (parent_process_shm env Mapped shm_fd w)))). in_segment i) \<and>
   fst (parent_process_shm env Mapped shm_fd w) \<noteq> Faults \<and>
   (1 \<le> sint num \<and> sint num \<le> 255 \<and> length arr = nat (sint num) \<longrightarrow>
      fst (child_process_shm env Mapped shm_fd (Some num # map Some arr @ rest) w) = Returns \<and>
      accesses (fst (snd (child_process_shm env Mapped shm_fd (Some num # map Some arr @ rest) w)))
        = [0..<Suc (nat (sint num))]) \<and>
   (wait_ret env = 0 \<and> 1 \<le> sint (segment w 0) \<and> sint (segment w 0) \<le> 255 \<longrightarrow>
      accesses (fst (snd (parent_process_shm env Mapped shm_fd w)))
        = [0..<Suc (nat (sint (segment w 0)))]) \<and>
   (in_segment i \<longleftrightarrow> i < BUFFER_SIZE div sizeof_int) \<and>
   in_segment 255 \<and> \<not> in_segment 256 \<and> sizeof_int * (1 + 255) = BUFFER_SIZE"
proof -
  obtain cf ce cw where c: "child_process_shm env Mapped shm_fd inp w = (cf, ce, cw)"
    by (metis surj_pair)
  note cp = child_process_shm_paths [OF c]
  have A: "\<forall>i\<in>set (accesses (fst (snd (child_process_shm env Mapped shm_fd inp w)))). in_segment i"
    unfolding c using cp by simp
  have B: "fst (child_process_shm env Mapped shm_fd inp w) \<noteq> Faults"
    unfolding c using cp by simp
  obtain pf pe pw where p: "parent_process_shm env Mapped shm_fd w = (pf, pe, pw)"
    by (metis surj_pair)
  note pp = parent_process_shm_paths [OF p]
  have C: "\<forall>i\<in>set (accesses (fst (snd (parent_process_shm env Mapped shm_fd w)))). in_segment i"
    unfolding p using pp by simp
  have D: "fst (parent_process_shm env Mapped shm_fd w) \<noteq> Faults"
    unfolding p using pp by simp
  have E: "1 \<le> sint num \<and> sint num \<le> 255 \<and> length arr = nat (sint num) \<longrightarrow>
      fst (child_process_shm env Mapped shm_fd (Some num # map Some arr @ rest) w) = Returns \<and>
      accesses (fst (snd (child_process_shm env Mapped shm_fd (Some num # map Some arr @ rest) w)))
        = [0..<Suc (nat (sint num))]"
  proof (intro impI)
    assume h: "1 \<le> sint num \<and> sint num \<le> 255 \<and> length arr = nat (sint num)"
    then obtain es w' where
      "child_process_shm env Mapped shm_fd (Some num # map Some arr @ rest) w = (Returns, es, w')"
      "accesses es = [0..<Suc (nat (sint num))]"
      using child_process_shm_complete [of num arr env shm_fd rest w] by blast
    then show "fst (child_process_shm env Mapped shm_fd (Some num # map Some arr @ rest) w) = Returns \<and>
      accesses (fst (snd (child_process_shm env Mapped shm_fd (Some num # map Some arr @ rest) w)))
        = [0..<Suc (nat (sint num))]" by simp
  qed
  have F: "wait_ret env = 0 \<and> 1 \<le> sint (segment w 0) \<and> sint (segment w 0) \<le> 255 \<longrightarrow>
      accesses (fst (snd (parent_process_shm env Mapped shm_fd w)))
        = [0..<Suc (nat (sint (segment w 0)))]"
  proof (intro impI)
    assume h: "wait_ret env = 0 \<and> 1 \<le> sint (segment w 0) \<and> sint (segment w 0) \<le> 255"
    then obtain es w' where
      "parent_process_shm env Mapped shm_fd w = (Returns, es, w')"
      "accesses es = [0..<Suc (nat (sint (segment w 0)))]"
      using parent_process_shm_ok [of env w shm_fd] by blast
    then show "accesses (fst (snd (parent_process_shm env Mapped shm_fd w)))
        = [0..<Suc (nat (sint (segment w 0)))]" by simp
  qed
  have G: "(in_segment i \<longleftrightarrow> i < BUFFER_SIZE div sizeof_int) \<and>
   in_segment 255 \<and> \<not> in_segment 256 \<and> sizeof_int * (1 + 255) = BUFFER_SIZE"
    by (simp add: in_segment_iff BUFFER_SIZE_def sizeof_int_def)
  from A B C D E F G show ?thesis by blast
qed

theorem shm_accesses_in_bounds_witness:
  "(1::int) \<le> sint (2::cint) \<and> sint (2::cint) \<le> 255 \<and> length [7, 8 :: cint] = nat (sint (2::cint)) \<and>
   accesses (fst (snd (child_process_shm (ok_env\<lparr>wait_ret := 0\<rparr>) Mapped 3 (Some 2 # map Some [7, 8] @ [])
       \<lparr>segment = (\<lambda>_. 0)(0 := 2, 1 := 7, 2 := 8), shm_names = {SHM_NAME}\<rparr>)))
     = [0..<3] \<and>
   in_segment 0 \<and> in_segment 1 \<and> in_segment 2 \<and>
   wait_ret (ok_env\<lparr>wait_ret := 0\<rparr>) = 0 \<and>
   accesses (fst (snd (parent_process_shm (ok_env\<lparr>wait_ret := 0\<rparr>) Mapped 3
       \<lparr>segment = (\<lambda>_. 0)(0 := 2, 1 := 7, 2 := 8), shm_names = {SHM_NAME}\<rparr>))) = [0..<3]"
  using shm_accesses_in_bounds [where env = "ok_env\<lparr>wait_ret := 0\<rparr>" and shm_fd = 3
          and inp = "Some 2 # map Some [7, 8] @ []"
          and w = "\<lparr>segment = (\<lambda>_. 0)(0 := 2, 1 := 7, 2 := 8), shm_names = {SHM_NAME}\<rparr>"
          and num = 2 and arr = "[7, 8]" and rest = "[]" and i = 0]
  by (simp add: parent_process_shm_def child_process_shm_def ok_env_def fresh_shm_def
        shm_load_def shm_store_def in_segment_iff shm_limit_eq
        parent_print_loop.simps child_store_loop.simps cleanup_shm_def sys_shm_unlink_def)

subsection \<open>Facts about the wire format and the stream programs\<close>

declare scan_loop.simps [simp del] print_loop.simps [simp del]

lemma bytes_int_int_bytes: "bytes_int (int_bytes v @ rest) = v"
  unfolding int_bytes_def bytes_int_def
  apply simp
  apply (rule bit_word_eqI)
  apply (simp add: bit_simps)
  subgoal for n
    by (cases "n < 8"; cases "n < 16"; cases "n < 24") auto
  done

lemma bytes_arr_step: "bytes_arr (int_bytes v @ rest) = v # bytes_arr rest"
proof -
  have "bytes_int (int_bytes v @ []) = v" by (rule bytes_int_int_bytes)
  then show ?thesis by (simp add: int_bytes_def)
qed

lemma bytes_arr_arr_bytes: "bytes_arr (arr_bytes arr) = arr"
  by (induction arr) (simp_all add: arr_bytes_def bytes_arr_step)

lemma length_int_bytes: "length (int_bytes v) = 4"
  by (simp add: int_bytes_def)

lemma length_arr_bytes: "length (arr_bytes arr) = 4 * length arr"
  by (induction arr) (simp_all add: arr_bytes_def int_bytes_def)

lemma pipe_limit_eq: "pipe_limit = 256"
  by (simp add: pipe_limit_def BUFFER_SIZE_def sizeof_int_def)

lemma size_bytes_valid: "0 \<le> sint num \<Longrightarrow> size_bytes num = 4 * nat (sint num)"
proof -
  assume a: "0 \<le> sint num"
  have "sint num < 2 ^ 31" using sint_lt [of num] by simp
  then have "sint num * 4 < 2 ^ 64" by simp
  then have "(sint num * 4) mod 2 ^ 64 = sint num * 4" using a by simp
  then show ?thesis using a by (simp add: size_bytes_def sizeof_int_def nat_mult_distrib)
qed

lemma size_of_count_valid: "0 \<le> sint num \<Longrightarrow> size_of_count num = nat (sint num)"
proof -
  assume a: "0 \<le> sint num"
  have "sint num < 2 ^ 31" using sint_lt [of num] by simp
  then have "sint num < 2 ^ 64" by simp
  then have "sint num mod 2 ^ 64 = sint num" using a by simp
  then show ?thesis by (simp add: size_of_count_def)
qed

lemma to_int32_minus_one: "to_int32 (- 1) = - 1"
  by (simp add: to_int32_def)

lemma to_int32_small: "0 \<le> r \<Longrightarrow> r < 2 ^ 31 \<Longrightarrow> to_int32 r = r"
  by (simp add: to_int32_def signed_take_bit_int_eq_self)

lemma scan_loop_done: "\<not> i < n \<Longrightarrow> scan_loop i n inp arr = Some arr"
  by (simp add: scan_loop.simps)

lemma scan_loop_step:
  "i < n \<Longrightarrow> scan_loop i n inp arr =
     (case scanf_d inp of None \<Rightarrow> None | Some (v, rest) \<Rightarrow> scan_loop (i + 1) n rest (arr @ [v]))"
  by (simp add: scan_loop.simps [of i n inp arr])

lemma print_loop_done: "\<not> i < n \<Longrightarrow> print_loop i n arr = (Returns, [])"
  by (simp add: print_loop.simps)

lemma print_loop_step:
  "i < n \<Longrightarrow> print_loop i n arr =
     (if i < length arr then
        (case print_loop (i + 1) n arr of (f, es) \<Rightarrow> (f, Stdout_int (arr ! i) # es))
      else (Faults, []))"
  by (simp add: print_loop.simps [of i n arr])

lemma scan_loop_complete:
  "length arr = n - i \<Longrightarrow> scan_loop i n (map Some arr @ rest) acc = Some (acc @ arr)"
proof (induction arr arbitrary: i acc)
  case Nil
  then show ?case by (simp add: scan_loop_done)
next
  case (Cons v arr)
  then have lt: "i < n" and len: "length arr = n - (i + 1)" by simp_all
  show ?case using Cons.IH [OF len, of "acc @ [v]"] lt by (simp add: scan_loop_step)
qed

lemma print_loop_all:
  "i \<le> length arr \<Longrightarrow> print_loop i (length arr) arr = (Returns, map Stdout_int (drop i arr))"
proof (induction "length arr - i" arbitrary: i)
  case 0
  then show ?case by (simp add: print_loop_done)
next
  case (Suc d)
  then have lt: "i < length arr" by simp
  have d: "d = length arr - (i + 1)" using Suc.hyps(2) by simp
  have le: "i + 1 \<le> length arr" using lt by simp
  have "drop i arr = arr ! i # drop (i + 1) arr" using lt by (simp add: Cons_nth_drop_Suc)
  then show ?case using Suc.hyps(1) [OF d le] lt by (simp add: print_loop_step)
qed

lemma print_loop_trace:
  "print_loop i n arr = (f, es) \<Longrightarrow>
   accesses es = [] \<and> (\<forall>e\<in>set es. \<exists>v. e = Stdout_int v) \<and> (f = Returns \<or> f = Faults)"
proof (induction i n arr arbitrary: f es rule: print_loop.induct)
  case (1 i n arr)
  show ?case
  proof (cases "i < n")
    case False
    with "1.prems" show ?thesis by (simp add: print_loop_done)
  next
    case True
    show ?thesis
    proof (cases "i < length arr")
      case False
      with "1.prems" True show ?thesis by (simp add: print_loop_step)
    next
      case il: True
      obtain f1 es1 where r: "print_loop (i + 1) n arr = (f1, es1)" by (metis surj_pair)
      note ih = "1.IH" [OF True il r]
      have res: "f = f1" "es = Stdout_int (arr ! i) # es1"
        using "1.prems" True il r by (simp_all add: print_loop_step)
      show ?thesis unfolding res using ih by simp
    qed
  qed
qed

lemma printed_map_Stdout_int: "printed (map Stdout_int xs) = xs"
  by (induction xs) simp_all

lemma sizeof_int_le: "sizeof_int \<le> SIZE_MAX"
  by (simp add: sizeof_int_def SIZE_MAX_def)

lemma size_bytes_le: "size_bytes num \<le> SIZE_MAX"
proof -
  have "(sint num * int sizeof_int) mod 2 ^ 64 < 2 ^ 64" by simp
  then show ?thesis by (simp add: size_bytes_def SIZE_MAX_def)
qed

lemma count_bytes_le: "n < 2 ^ 31 \<Longrightarrow> 4 * n \<le> SSIZE_MAX \<and> 4 * n \<le> SIZE_MAX"
  by (simp add: SSIZE_MAX_def SIZE_MAX_def)

lemma ssize_of_count: "n < 2 ^ 31 \<Longrightarrow> ssize_of (4 * n) = int (4 * n) \<and> ssize_of (4 * n) \<noteq> - 1"
  using count_bytes_le [of n] ssize_of_small [of "4 * n"] by simp

lemma ssize_of_sizeof_int: "ssize_of sizeof_int = 4"
  by (simp add: ssize_of_def sizeof_int_def)

lemma sys_write_loop_run:
  assumes b: "bytes \<le> SIZE_MAX"
  shows "tot \<le> bytes \<Longrightarrow>
   \<exists>r k' flight'.
      write_all_loop (sys_write sched) buffer bytes tot (k, flight) = Some (r, (k', flight')) \<and>
      (r \<noteq> - 1 \<or> (\<forall>j. 0 < sched j) \<longrightarrow>
         r = ssize_of bytes \<and> flight' = flight @ take (bytes - tot) (drop tot buffer))"
proof (induction "bytes - tot" arbitrary: tot k flight rule: less_induct)
  case less
  show ?case
  proof (cases "tot < bytes")
    case False
    then have "tot = bytes" using less.prems by simp
    then show ?thesis by (simp add: write_all_loop_done)
  next
    case True
    show ?thesis
    proof (cases "sched k \<le> 0")
      case neg: True
      have st: "sys_write sched (k, flight) (drop tot buffer) (bytes - tot) = (sched k, (Suc k, flight))"
        using neg by (simp add: sys_write_def)
      have "write_all_loop (sys_write sched) buffer bytes tot (k, flight) = Some (- 1, (Suc k, flight))"
        using write_all_loop_step [where wr = "sys_write sched" and s = "(k, flight)", OF True st] neg
        by simp
      moreover have "\<not> (\<forall>j. 0 < sched j)" using neg by (auto simp: not_less intro: exI [of _ k])
      ultimately show ?thesis by auto
    next
      case pos: False
      define m where "m = min (nat (sched k)) (bytes - tot)"
      have m0: "0 < m" using pos True by (simp add: m_def)
      have mle: "m \<le> bytes - tot" by (simp add: m_def)
      have st: "sys_write sched (k, flight) (drop tot buffer) (bytes - tot) =
                  (int m, (Suc k, flight @ take m (drop tot buffer)))"
        using pos by (simp add: sys_write_def m_def)
      have n0: "\<not> int m \<le> 0" using m0 by simp
      have le: "tot + m \<le> bytes" using mle True by simp
      have sa: "size_add tot (int m) = tot + m"
        using size_add_small [of "int m" tot] le b by simp
      have eq: "write_all_loop (sys_write sched) buffer bytes tot (k, flight) =
            write_all_loop (sys_write sched) buffer bytes (tot + m)
              (Suc k, flight @ take m (drop tot buffer))"
        using write_all_loop_step [where wr = "sys_write sched" and s = "(k, flight)", OF True st] n0
        by (simp only: if_False sa)
      have dec: "bytes - (tot + m) < bytes - tot" using True m0 by simp
      from less.hyps [OF dec le, of "Suc k" "flight @ take m (drop tot buffer)"]
      obtain r k' flight' where
        rec: "write_all_loop (sys_write sched) buffer bytes (tot + m)
                (Suc k, flight @ take m (drop tot buffer)) = Some (r, (k', flight'))"
        and d: "r \<noteq> - 1 \<or> (\<forall>j. 0 < sched j) \<longrightarrow>
                  r = ssize_of bytes \<and>
                  flight' = (flight @ take m (drop tot buffer)) @
                    take (bytes - (tot + m)) (drop (tot + m) buffer)"
        by blast
      have "take (m + (bytes - tot - m)) (drop tot buffer) =
            take m (drop tot buffer) @ take (bytes - tot - m) (drop m (drop tot buffer))"
        by (rule take_add)
      moreover have "m + (bytes - tot - m) = bytes - tot" using mle by simp
      ultimately have tk: "take (bytes - tot) (drop tot buffer) =
            take m (drop tot buffer) @ take (bytes - tot - m) (drop (tot + m) buffer)"
        by (simp add: add.commute)
      have "r \<noteq> - 1 \<or> (\<forall>j. 0 < sched j) \<longrightarrow>
              r = ssize_of bytes \<and> flight' = flight @ take (bytes - tot) (drop tot buffer)"
        using d tk by simp
      moreover have "write_all_loop (sys_write sched) buffer bytes tot (k, flight) =
                       Some (r, (k', flight'))"
        using eq rec by simp
      ultimately show ?thesis by blast
    qed
  qed
qed

lemma sys_write_loop_data:
  assumes "write_all_loop (sys_write sched) buffer bytes tot (k, flight) = Some (r, (k', flight'))"
    and "bytes \<le> SIZE_MAX" and "tot \<le> bytes" and "r \<noteq> - 1 \<or> (\<forall>j. 0 < sched j)"
  shows "r = ssize_of bytes \<and> flight' = flight @ take (bytes - tot) (drop tot buffer)"
  using sys_write_loop_run [OF assms(2,3), of sched buffer k flight] assms(1,4) by auto

lemma sys_read_loop_run:
  assumes b: "bytes \<le> SIZE_MAX"
  shows "tot \<le> bytes \<Longrightarrow>
   \<exists>r buf' k' flight'.
      read_all_loop (sys_read sched) bytes tot buffer (k, flight) = Some (r, buf', (k', flight')) \<and>
      (r \<noteq> - 1 \<or> ((\<forall>j. 0 < sched j) \<and> bytes - tot \<le> length flight) \<longrightarrow>
         r = ssize_of bytes \<and> buf' = buffer @ take (bytes - tot) flight \<and>
         flight' = drop (bytes - tot) flight \<and> bytes - tot \<le> length flight)"
proof (induction "bytes - tot" arbitrary: tot buffer k flight rule: less_induct)
  case less
  show ?case
  proof (cases "tot < bytes")
    case False
    then have "tot = bytes" using less.prems by simp
    then show ?thesis by (simp add: read_all_loop_done)
  next
    case True
    show ?thesis
    proof (cases "sched k \<le> 0")
      case neg: True
      have st: "sys_read sched (k, flight) (bytes - tot) = ((sched k, []), (Suc k, flight))"
        using neg by (simp add: sys_read_def)
      have "read_all_loop (sys_read sched) bytes tot buffer (k, flight) =
              Some (- 1, buffer, (Suc k, flight))"
        using read_all_loop_step [where rd = "sys_read sched" and s = "(k, flight)", OF True st] neg
        by simp
      moreover have "\<not> (\<forall>j. 0 < sched j)" using neg by (auto simp: not_less intro: exI [of _ k])
      ultimately show ?thesis by auto
    next
      case pos: False
      define c where "c = min (nat (sched k)) (bytes - tot)"
      define m where "m = min c (length flight)"
      have c0: "0 < c" using pos True by (simp add: c_def)
      have cle: "c \<le> bytes - tot" by (simp add: c_def)
      have st: "sys_read sched (k, flight) (bytes - tot) =
                  ((int m, take c flight), (Suc k, drop c flight))"
        using pos by (simp add: sys_read_def m_def c_def)
      show ?thesis
      proof (cases "m = 0")
        case z: True
        have "read_all_loop (sys_read sched) bytes tot buffer (k, flight) =
                Some (- 1, buffer, (Suc k, drop c flight))"
          using read_all_loop_step [where rd = "sys_read sched" and s = "(k, flight)", OF True st] z
          by simp
        moreover have "\<not> bytes - tot \<le> length flight" using z c0 True by (simp add: m_def)
        ultimately show ?thesis by simp
      next
        case False
        then have m0: "0 < m" by simp
        have n0: "\<not> int m \<le> 0" using m0 by simp
        have mle: "m \<le> bytes - tot" by (simp add: m_def c_def)
        have tk: "take c flight = take m flight" by (simp add: m_def min_def)
        have dr: "drop c flight = drop m flight" by (simp add: m_def min_def)
        have ml: "m \<le> length flight" by (simp add: m_def)
        have le: "tot + m \<le> bytes" using mle True by simp
        have sa: "size_add tot (int m) = tot + m"
          using size_add_small [of "int m" tot] le b by simp
        have eq: "read_all_loop (sys_read sched) bytes tot buffer (k, flight) =
              read_all_loop (sys_read sched) bytes (tot + m) (buffer @ take c flight)
                (Suc k, drop c flight)"
          using read_all_loop_step [where rd = "sys_read sched" and s = "(k, flight)", OF True st] n0
          by (simp only: if_False sa)
        have dec: "bytes - (tot + m) < bytes - tot" using True m0 by simp
        from less.hyps [OF dec le, of "buffer @ take c flight" "Suc k" "drop c flight"]
        obtain r buf' k' flight' where
          rec: "read_all_loop (sys_read sched) bytes (tot + m) (buffer @ take c flight)
                  (Suc k, drop c flight) = Some (r, buf', (k', flight'))"
          and d: "r \<noteq> - 1 \<or> ((\<forall>j. 0 < sched j) \<and> bytes - (tot + m) \<le> length (drop c flight)) \<longrightarrow>
                    r = ssize_of bytes \<and>
                    buf' = (buffer @ take c flight) @ take (bytes - (tot + m)) (drop c flight) \<and>
                    flight' = drop (bytes - (tot + m)) (drop c flight) \<and>
                    bytes - (tot + m) \<le> length (drop c flight)"
          by blast
        have e1: "m + (bytes - tot - m) = bytes - tot" using mle by simp
        have "take (m + (bytes - tot - m)) flight =
              take m flight @ take (bytes - tot - m) (drop m flight)"
          by (rule take_add)
        then have t: "take (bytes - tot) flight = take m flight @ take (bytes - tot - m) (drop m flight)"
          unfolding e1 .
        have "drop (bytes - tot - m) (drop m flight) = drop (bytes - tot - m + m) flight"
          by simp
        moreover have "bytes - tot - m + m = bytes - tot" using mle by simp
        ultimately have dd: "drop (bytes - tot - m) (drop m flight) = drop (bytes - tot) flight"
          by simp
        have pre: "bytes - tot \<le> length flight \<Longrightarrow> bytes - (tot + m) \<le> length (drop c flight)"
          unfolding dr by simp
        have post: "bytes - (tot + m) \<le> length (drop c flight) \<Longrightarrow> bytes - tot \<le> length flight"
          unfolding dr using ml mle by simp
        have "r \<noteq> - 1 \<or> ((\<forall>j. 0 < sched j) \<and> bytes - tot \<le> length flight) \<longrightarrow>
                r = ssize_of bytes \<and> buf' = buffer @ take (bytes - tot) flight \<and>
                flight' = drop (bytes - tot) flight \<and> bytes - tot \<le> length flight"
        proof
          assume "r \<noteq> - 1 \<or> ((\<forall>j. 0 < sched j) \<and> bytes - tot \<le> length flight)"
          then have "r \<noteq> - 1 \<or> ((\<forall>j. 0 < sched j) \<and> bytes - (tot + m) \<le> length (drop c flight))"
            using pre by blast
          with d have r: "r = ssize_of bytes"
            and bf: "buf' = (buffer @ take c flight) @ take (bytes - (tot + m)) (drop c flight)"
            and f: "flight' = drop (bytes - (tot + m)) (drop c flight)"
            and l: "bytes - (tot + m) \<le> length (drop c flight)"
            by blast+
          show "r = ssize_of bytes \<and> buf' = buffer @ take (bytes - tot) flight \<and>
                flight' = drop (bytes - tot) flight \<and> bytes - tot \<le> length flight"
            using r bf f t dd post [OF l] unfolding tk dr by simp
        qed
        moreover have "read_all_loop (sys_read sched) bytes tot buffer (k, flight) =
                         Some (r, buf', (k', flight'))"
          using eq rec by simp
        ultimately show ?thesis by blast
      qed
    qed
  qed
qed

lemma sys_read_loop_data:
  assumes "read_all_loop (sys_read sched) bytes tot buffer (k, flight) = Some (r, buf', (k', flight'))"
    and "bytes \<le> SIZE_MAX" and "tot \<le> bytes"
    and "r \<noteq> - 1 \<or> ((\<forall>j. 0 < sched j) \<and> bytes - tot \<le> length flight)"
  shows "r = ssize_of bytes \<and> buf' = buffer @ take (bytes - tot) flight \<and>
         flight' = drop (bytes - tot) flight \<and> bytes - tot \<le> length flight"
  using sys_read_loop_run [OF assms(2,3), of sched buffer k flight] assms(1,4) by auto

text \<open>What the two writes of a producer leave in the stream, and what the two reads of a
  consumer take out of it.\<close>

lemma producer_writes:
  assumes w1: "write_all (sys_write sched) (0, flight) (int_bytes num) sizeof_int = Some (r1, st1)"
    and w2: "write_all (sys_write sched) st1 (arr_bytes arr) (4 * length arr) = Some (r2, st2)"
    and n: "length arr < 2 ^ 31"
  shows "(r1 \<noteq> - 1 \<longrightarrow> snd st1 = flight @ int_bytes num) \<and>
         (r1 \<noteq> - 1 \<longrightarrow> r2 \<noteq> - 1 \<longrightarrow> snd st2 = flight @ int_bytes num @ arr_bytes arr) \<and>
         ((\<forall>j. 0 < sched j) \<longrightarrow> r1 \<noteq> - 1 \<and> r2 \<noteq> - 1)"
proof -
  obtain k1 f1 where st1: "st1 = (k1, f1)" by (cases st1)
  obtain k2 f2 where st2: "st2 = (k2, f2)" by (cases st2)
  have l1: "write_all_loop (sys_write sched) (int_bytes num) sizeof_int 0 (0, flight) = Some (r1, (k1, f1))"
    using w1 by (simp add: write_all_def st1)
  have l2: "write_all_loop (sys_write sched) (arr_bytes arr) (4 * length arr) 0 (k1, f1) = Some (r2, (k2, f2))"
    using w2 by (simp add: write_all_def st1 st2)
  have b2: "4 * length arr \<le> SIZE_MAX" using count_bytes_le [OF n] by simp
  have a: "r1 \<noteq> - 1 \<or> (\<forall>j. 0 < sched j) \<longrightarrow> r1 = 4 \<and> f1 = flight @ int_bytes num"
    using sys_write_loop_data [OF l1 sizeof_int_le]
    by (simp add: ssize_of_sizeof_int) (simp add: sizeof_int_def length_int_bytes)
  have b: "r2 \<noteq> - 1 \<or> (\<forall>j. 0 < sched j) \<longrightarrow> r2 = int (4 * length arr) \<and> f2 = f1 @ arr_bytes arr"
    using sys_write_loop_data [OF l2 b2] ssize_of_count [OF n]
    by (simp add: length_arr_bytes)
  from a b show ?thesis by (auto simp: st1 st2)
qed

lemma consumer_reads:
  assumes r1: "read_all (sys_read sched) (0, int_bytes num @ arr_bytes arr @ rest) sizeof_int =
                 Some (r1, buf1, st1)"
    and r2: "read_all (sys_read sched) st1 (4 * length arr) = Some (r2, buf2, st2)"
    and n: "length arr < 2 ^ 31"
  shows "(r1 \<noteq> - 1 \<longrightarrow> r1 = 4 \<and> bytes_int buf1 = num) \<and>
         (r1 \<noteq> - 1 \<longrightarrow> r2 \<noteq> - 1 \<longrightarrow>
            r2 = int (4 * length arr) \<and> bytes_arr buf2 = arr \<and> snd st2 = rest) \<and>
         ((\<forall>j. 0 < sched j) \<longrightarrow> r1 \<noteq> - 1 \<and> r2 \<noteq> - 1)"
proof -
  obtain k1 f1 where st1: "st1 = (k1, f1)" by (cases st1)
  obtain k2 f2 where st2: "st2 = (k2, f2)" by (cases st2)
  have l1: "read_all_loop (sys_read sched) sizeof_int 0 [] (0, int_bytes num @ arr_bytes arr @ rest) =
              Some (r1, buf1, (k1, f1))"
    using r1 by (simp add: read_all_def st1)
  have l2: "read_all_loop (sys_read sched) (4 * length arr) 0 [] (k1, f1) = Some (r2, buf2, (k2, f2))"
    using r2 by (simp add: read_all_def st1 st2)
  have b2: "4 * length arr \<le> SIZE_MAX" using count_bytes_le [OF n] by simp
  have a: "r1 \<noteq> - 1 \<or> (\<forall>j. 0 < sched j) \<longrightarrow>
             r1 = 4 \<and> buf1 = int_bytes num \<and> f1 = arr_bytes arr @ rest"
  proof
    assume h: "r1 \<noteq> - 1 \<or> (\<forall>j. 0 < sched j)"
    have "r1 \<noteq> - 1 \<or> ((\<forall>j. 0 < sched j) \<and>
            sizeof_int - 0 \<le> length (int_bytes num @ arr_bytes arr @ rest))"
      using h by (simp add: sizeof_int_def length_int_bytes)
    from sys_read_loop_data [OF l1 sizeof_int_le _ this]
    show "r1 = 4 \<and> buf1 = int_bytes num \<and> f1 = arr_bytes arr @ rest"
      by (simp add: ssize_of_sizeof_int) (simp add: sizeof_int_def length_int_bytes)
  qed
  have b: "r1 \<noteq> - 1 \<or> (\<forall>j. 0 < sched j) \<Longrightarrow> r2 \<noteq> - 1 \<or> (\<forall>j. 0 < sched j) \<Longrightarrow>
             r2 = int (4 * length arr) \<and> buf2 = arr_bytes arr \<and> f2 = rest"
  proof -
    assume h1: "r1 \<noteq> - 1 \<or> (\<forall>j. 0 < sched j)" and h2: "r2 \<noteq> - 1 \<or> (\<forall>j. 0 < sched j)"
    have f1: "f1 = arr_bytes arr @ rest" using a h1 by blast
    have "r2 \<noteq> - 1 \<or> ((\<forall>j. 0 < sched j) \<and> 4 * length arr - 0 \<le> length f1)"
      using h2 by (simp add: f1 length_arr_bytes)
    from sys_read_loop_data [OF l2 b2 _ this] ssize_of_count [OF n]
    show "r2 = int (4 * length arr) \<and> buf2 = arr_bytes arr \<and> f2 = rest"
      by (simp add: f1 length_arr_bytes)
  qed
  have c: "(\<forall>j. 0 < sched j) \<longrightarrow> r1 \<noteq> - 1 \<and> r2 \<noteq> - 1"
  proof
    assume p: "\<forall>j. 0 < sched j"
    have "r1 = 4" using a p by blast
    moreover have "r2 = int (4 * length arr)" using b p by blast
    ultimately show "r1 \<noteq> - 1 \<and> r2 \<noteq> - 1" by simp
  qed
  have a': "r1 \<noteq> - 1 \<longrightarrow> r1 = 4 \<and> bytes_int buf1 = num"
    using a bytes_int_int_bytes [of num "[]"] by auto
  have b': "r1 \<noteq> - 1 \<longrightarrow> r2 \<noteq> - 1 \<longrightarrow>
            r2 = int (4 * length arr) \<and> bytes_arr buf2 = arr \<and> snd st2 = rest"
    using b by (auto simp: st2 bytes_arr_arr_bytes)
  from a' b' c show ?thesis by blast
qed

lemma child_process_pipe_run:
  assumes v: "1 \<le> sint num" "length arr = nat (sint num)" "sint num \<le> 256"
  shows "(fst (child_process_pipe env (Some num # map Some arr @ rest) flight) = Returns \<longrightarrow>
            snd (snd (child_process_pipe env (Some num # map Some arr @ rest) flight)) =
              flight @ int_bytes num @ arr_bytes arr) \<and>
         (malloc_ok env (size_bytes num) \<longrightarrow> (\<forall>j. 0 < write_sched env j) \<longrightarrow>
            fst (child_process_pipe env (Some num # map Some arr @ rest) flight) = Returns)"
proof -
  let ?inp = "Some num # map Some arr @ rest"
  have sc: "scanf_d ?inp = Some (num, map Some arr @ rest)" by simp
  have ok: "\<not> (sint num \<le> 0 \<or> sint num > pipe_limit)" using v by (simp add: pipe_limit_eq)
  have sb: "size_bytes num = 4 * length arr" using v by (simp add: size_bytes_valid)
  have soc: "size_of_count num = length arr" using v by (simp add: size_of_count_valid)
  have sl: "scan_loop 0 (length arr) (map Some arr @ rest) [] = Some arr"
    using scan_loop_complete [of arr "length arr" 0 rest "[]"] by simp
  have ln: "length arr < 2 ^ 31" using v by simp
  obtain r1 st1 where w1: "write_all (sys_write (write_sched env)) (0, flight) (int_bytes num) sizeof_int =
        Some (r1, st1)"
    by (metis sys_write_total sizeof_int_le)
  obtain r2 st2 where w2: "write_all (sys_write (write_sched env)) st1 (arr_bytes arr) (4 * length arr) =
        Some (r2, st2)"
    using count_bytes_le [OF ln] by (metis sys_write_total)
  note pw = producer_writes [OF w1 w2 ln]
  show ?thesis
  proof (cases "malloc_ok env (4 * length arr)")
    case False
    then show ?thesis by (simp add: child_process_pipe_def ok sb)
  next
    case m: True
    show ?thesis
    proof (cases "r1 = - 1")
      case True
      then have "fst (child_process_pipe env ?inp flight) = Exits EXIT_FAILURE"
        using m by (simp add: child_process_pipe_def ok sb soc sl w1)
      moreover have "\<not> (\<forall>j. 0 < write_sched env j)" using pw True by blast
      ultimately show ?thesis by simp
    next
      case n1: False
      show ?thesis
      proof (cases "r2 = - 1")
        case True
        then have "fst (child_process_pipe env ?inp flight) = Exits EXIT_FAILURE"
          using m n1 by (simp add: child_process_pipe_def ok sb soc sl w1 w2)
        moreover have "\<not> (\<forall>j. 0 < write_sched env j)" using pw True by blast
        ultimately show ?thesis by simp
      next
        case n2: False
        have "snd st2 = flight @ int_bytes num @ arr_bytes arr" using pw n1 n2 by blast
        then show ?thesis
          using m n1 n2 by (simp add: child_process_pipe_def ok sb soc sl w1 w2)
      qed
    qed
  qed
qed

lemma child_process_pipe_rejects:
  "sint num \<le> 0 \<or> sint num > pipe_limit \<Longrightarrow>
   child_process_pipe env (Some num # rest) flight =
     (Exits EXIT_FAILURE, [Stdout ''Enter number of elements: '', Stderr ''0 < num < 257''], flight)"
  by (simp add: child_process_pipe_def)

lemma to_int32_count: "n < 2 ^ 29 \<Longrightarrow> to_int32 (int (4 * n)) = int (4 * n)"
  by (rule to_int32_small) simp_all

lemma parent_process_pipe_run:
  assumes v: "0 \<le> sint num" "length arr = nat (sint num)" "sint num < 2 ^ 29"
  shows "(fst (parent_process_pipe env (int_bytes num @ arr_bytes arr @ rest)) = Returns \<longrightarrow>
            printed (fst (snd (parent_process_pipe env (int_bytes num @ arr_bytes arr @ rest)))) = arr) \<and>
         (malloc_ok env (size_bytes num) \<longrightarrow> (\<forall>j. 0 < read_sched env j) \<longrightarrow> wait_ret env \<noteq> - 1 \<longrightarrow>
            parent_process_pipe env (int_bytes num @ arr_bytes arr @ rest) =
              (Returns,
               [Call_read_all sizeof_int, Sys_malloc (size_bytes num), Call_read_all (size_bytes num)] @
               map Stdout_int arr @ [Stdout_newline, Sys_free, Sys_wait (wait_ret env)], rest))"
proof -
  let ?fl = "int_bytes num @ arr_bytes arr @ rest"
  have sb: "size_bytes num = 4 * length arr" using v by (simp add: size_bytes_valid)
  have soc: "size_of_count num = length arr" using v by (simp add: size_of_count_valid)
  have ln29: "length arr < 2 ^ 29" using v by simp
  have ln: "length arr < 2 ^ 31" using v by simp
  obtain r1 buf1 st1 where r1: "read_all (sys_read (read_sched env)) (0, ?fl) sizeof_int =
        Some (r1, buf1, st1)"
    by (metis sys_read_total sizeof_int_le)
  obtain r2 buf2 st2 where r2: "read_all (sys_read (read_sched env)) st1 (4 * length arr) =
        Some (r2, buf2, st2)"
    using count_bytes_le [OF ln] by (metis sys_read_total)
  note cr = consumer_reads [OF r1 r2 ln]
  show ?thesis
  proof (cases "r1 = - 1")
    case True
    then have "fst (parent_process_pipe env ?fl) = Exits EXIT_FAILURE"
      by (simp add: parent_process_pipe_def r1 to_int32_minus_one)
    moreover have "\<not> (\<forall>j. 0 < read_sched env j)" using cr True by blast
    ultimately show ?thesis by auto
  next
    case n1: False
    have d1: "r1 = 4" "bytes_int buf1 = num" using cr n1 by blast+
    have t1: "to_int32 r1 \<noteq> - 1" using d1 by (simp add: to_int32_def)
    show ?thesis
    proof (cases "malloc_ok env (4 * length arr)")
      case False
      then show ?thesis using t1 d1 by (simp add: parent_process_pipe_def r1 sb)
    next
      case m: True
      show ?thesis
      proof (cases "r2 = - 1")
        case True
        then have "fst (parent_process_pipe env ?fl) = Exits EXIT_FAILURE"
          using t1 d1 m by (simp add: parent_process_pipe_def r1 r2 sb to_int32_minus_one)
        moreover have "\<not> (\<forall>j. 0 < read_sched env j)" using cr n1 True by blast
        ultimately show ?thesis by auto
      next
        case n2: False
        have d2: "r2 = int (4 * length arr)" "bytes_arr buf2 = arr" "snd st2 = rest"
          using cr n1 n2 by blast+
        have t2: "to_int32 r2 \<noteq> - 1" unfolding d2(1) using to_int32_count [OF ln29] by simp
        have pl: "print_loop 0 (length arr) arr = (Returns, map Stdout_int arr)"
          using print_loop_all [of 0 arr] by simp
        show ?thesis
          using t1 d1 m t2 d2(2,3) pl
          by (simp add: parent_process_pipe_def r1 r2 sb soc printed_append printed_map_Stdout_int)
      qed
    qed
  qed
qed

lemma parent_process_pipe_unchecked:
  assumes "read_all (sys_read (read_sched env)) (0, flight) sizeof_int = Some (r1, buf1, st1)"
    and "to_int32 r1 \<noteq> - 1"
  shows "\<exists>es. fst (snd (parent_process_pipe env flight)) =
           Call_read_all sizeof_int # Sys_malloc (size_bytes (bytes_int buf1)) # es"
  using assms by (simp add: parent_process_pipe_def split: prod.splits option.splits)

lemma close_fd_events: "set (close_fd env) \<subseteq> {Sys_close, Perror ''close''}"
  by (auto simp: close_fd_def)

lemma close_fd_trace:
  "Sys_unlink \<notin> set (close_fd env) \<and> Sys_shm_unlink \<notin> set (close_fd env) \<and>
   (\<forall>n. Call_write_all n \<notin> set (close_fd env)) \<and> printed (close_fd env) = []"
  by (simp add: close_fd_def)

lemma cleanup_fifo_trace:
  "cleanup_fifo w = (cs, w') \<Longrightarrow>
   Sys_unlink \<in> set cs \<and> printed cs = [] \<and> FIFO_PATH \<notin> fs_names w' \<and>
   fifo_flight w' = fifo_flight w"
  by (auto simp: cleanup_fifo_def sys_unlink_def split: if_splits)

lemma child_process_fifo_paths:
  assumes "child_process_fifo env inp w = (f, es, w')"
  shows "Sys_unlink \<notin> set es \<and> Sys_shm_unlink \<notin> set es \<and> fs_names w' = fs_names w"
proof (cases "open_child_ret env = - 1")
  case True
  with assms show ?thesis by (auto simp: child_process_fifo_def)
next
  case op: False
  show ?thesis
  proof (cases "scanf_d inp")
    case None
    with assms op close_fd_trace [of env] show ?thesis by (auto simp: child_process_fifo_def)
  next
    case (Some p)
    obtain num rest where p: "p = (num, rest)" by (cases p)
    note sc = Some [unfolded p]
    show ?thesis
    proof (cases "sint num \<le> 0 \<or> sint num > pipe_limit")
      case True
      with assms op sc close_fd_trace [of env] show ?thesis by (auto simp: child_process_fifo_def)
    next
      case ok: False
      show ?thesis
      proof (cases "malloc_ok env (size_bytes num)")
        case False
        with assms op sc ok show ?thesis by (auto simp: child_process_fifo_def)
      next
        case m: True
        show ?thesis
        proof (cases "scan_loop 0 (size_of_count num) rest []")
          case None
          with assms op sc ok m close_fd_trace [of env] show ?thesis
            by (auto simp: child_process_fifo_def)
        next
          case (Some arr)
          obtain r1 st1 where w1: "write_all (sys_write (write_sched env)) (0, fifo_flight w) (int_bytes num) sizeof_int =
        Some (r1, st1)"
    by (metis sys_write_total sizeof_int_le)
          obtain r2 st2 where w2: "write_all (sys_write (write_sched env)) st1 (arr_bytes arr) (size_bytes num) =
        Some (r2, st2)"
    by (metis sys_write_total size_bytes_le)
          from assms op sc ok m Some w1 w2 close_fd_trace [of env] show ?thesis
            by (auto simp: child_process_fifo_def split: if_splits)
        qed
      qed
    qed
  qed
qed

lemma child_process_fifo_rejects:
  assumes "sint num \<le> 0 \<or> sint num > pipe_limit"
  shows "fst (child_process_fifo env (Some num # rest) w) = Exits EXIT_FAILURE \<and>
         snd (snd (child_process_fifo env (Some num # rest) w)) = w \<and>
         (\<forall>n. Call_write_all n \<notin> set (fst (snd (child_process_fifo env (Some num # rest) w))))"
  using assms close_fd_trace [of env] by (auto simp: child_process_fifo_def)

lemma child_process_fifo_run:
  assumes v: "1 \<le> sint num" "length arr = nat (sint num)" "sint num \<le> 256"
    and op: "open_child_ret env \<noteq> - 1"
  shows "(fst (child_process_fifo env (Some num # map Some arr @ rest) w) = Returns \<longrightarrow>
            snd (snd (child_process_fifo env (Some num # map Some arr @ rest) w)) =
              w\<lparr>fifo_flight := fifo_flight w @ int_bytes num @ arr_bytes arr\<rparr>) \<and>
         (malloc_ok env (size_bytes num) \<longrightarrow> (\<forall>j. 0 < write_sched env j) \<longrightarrow>
            fst (child_process_fifo env (Some num # map Some arr @ rest) w) = Returns)"
proof -
  let ?inp = "Some num # map Some arr @ rest"
  have ok: "\<not> (sint num \<le> 0 \<or> sint num > pipe_limit)" using v by (simp add: pipe_limit_eq)
  have sb: "size_bytes num = 4 * length arr" using v by (simp add: size_bytes_valid)
  have soc: "size_of_count num = length arr" using v by (simp add: size_of_count_valid)
  have sl: "scan_loop 0 (length arr) (map Some arr @ rest) [] = Some arr"
    using scan_loop_complete [of arr "length arr" 0 rest "[]"] by simp
  have ln: "length arr < 2 ^ 31" using v by simp
  obtain r1 st1 where w1: "write_all (sys_write (write_sched env)) (0, fifo_flight w) (int_bytes num) sizeof_int =
        Some (r1, st1)"
    by (metis sys_write_total sizeof_int_le)
  obtain r2 st2 where w2: "write_all (sys_write (write_sched env)) st1 (arr_bytes arr) (4 * length arr) =
        Some (r2, st2)"
    using count_bytes_le [OF ln] by (metis sys_write_total)
  note pw = producer_writes [OF w1 w2 ln]
  show ?thesis
  proof (cases "malloc_ok env (4 * length arr)")
    case False
    then show ?thesis using op by (simp add: child_process_fifo_def ok sb)
  next
    case m: True
    show ?thesis
    proof (cases "r1 = - 1")
      case True
      then have "fst (child_process_fifo env ?inp w) = Exits EXIT_FAILURE"
        using m op by (simp add: child_process_fifo_def ok sb soc sl w1)
      moreover have "\<not> (\<forall>j. 0 < write_sched env j)" using pw True by blast
      ultimately show ?thesis by auto
    next
      case n1: False
      show ?thesis
      proof (cases "r2 = - 1")
        case True
        then have "fst (child_process_fifo env ?inp w) = Exits EXIT_FAILURE"
          using m n1 op by (simp add: child_process_fifo_def ok sb soc sl w1 w2)
        moreover have "\<not> (\<forall>j. 0 < write_sched env j)" using pw True by blast
        ultimately show ?thesis by auto
      next
        case n2: False
        have "snd st2 = fifo_flight w @ int_bytes num @ arr_bytes arr" using pw n1 n2 by blast
        then show ?thesis
          using m n1 n2 op by (simp add: child_process_fifo_def ok sb soc sl w1 w2)
      qed
    qed
  qed
qed

lemma parent_process_fifo_paths:
  assumes "parent_process_fifo env w = (f, es, w')"
  shows "f \<noteq> Faults \<longrightarrow> Sys_unlink \<in> set es \<and> FIFO_PATH \<notin> fs_names w'"
proof (cases "open_parent_ret env = - 1")
  case True
  obtain cs w1 where c: "cleanup_fifo w = (cs, w1)" by (metis surj_pair)
  from assms True c cleanup_fifo_trace [OF c] show ?thesis
    by (auto simp: parent_process_fifo_def)
next
  case op: False
  obtain r1 buf1 st1 where r1: "read_all (sys_read (read_sched env)) (0, fifo_flight w) sizeof_int =
        Some (r1, buf1, st1)"
    by (metis sys_read_total sizeof_int_le)
  obtain cs1 w1 where c1: "cleanup_fifo (w\<lparr>fifo_flight := snd st1\<rparr>) = (cs1, w1)" by (metis surj_pair)
  note t1 = cleanup_fifo_trace [OF c1]
  show ?thesis
  proof (cases "r1 = - 1 \<or> \<not> malloc_ok env (size_bytes (bytes_int buf1))")
    case True
    then consider "r1 = - 1" | "r1 \<noteq> - 1" "\<not> malloc_ok env (size_bytes (bytes_int buf1))" by blast
    then show ?thesis
    proof cases
      case 1
      with assms op r1 c1 t1 show ?thesis by (auto simp: parent_process_fifo_def)
    next
      case 2
      with assms op r1 c1 t1 show ?thesis by (auto simp: parent_process_fifo_def)
    qed
  next
    case False
    then have n1: "r1 \<noteq> - 1" and m: "malloc_ok env (size_bytes (bytes_int buf1))" by simp_all
    obtain r2 buf2 st2 where r2: "read_all (sys_read (read_sched env)) st1 (size_bytes (bytes_int buf1)) =
        Some (r2, buf2, st2)"
    by (metis sys_read_total size_bytes_le)
    obtain cs2 w2 where c2: "cleanup_fifo (w\<lparr>fifo_flight := snd st2\<rparr>) = (cs2, w2)" by (metis surj_pair)
    note t2 = cleanup_fifo_trace [OF c2]
    show ?thesis
    proof (cases "r2 = - 1")
      case True
      with assms op r1 n1 m r2 c2 t2 show ?thesis
        by (auto simp: parent_process_fifo_def)
    next
      case n2: False
      obtain f1 es1 where pl: "print_loop 0 (size_of_count (bytes_int buf1)) (bytes_arr buf2) = (f1, es1)"
        by (metis surj_pair)
      have fl: "f1 = Returns \<or> f1 = Faults" using print_loop_trace [OF pl] by blast
      show ?thesis
      proof (cases "f1 = Returns")
        case True
        with assms op r1 n1 m r2 n2 pl c2 t2 show ?thesis
          by (auto simp: parent_process_fifo_def)
      next
        case False
        then have "f1 = Faults" using fl by blast
        with assms op r1 n1 m r2 n2 pl show ?thesis
          by (auto simp: parent_process_fifo_def)
      qed
    qed
  qed
qed

lemma parent_process_fifo_run:
  assumes v: "0 \<le> sint num" "length arr = nat (sint num)" "sint num < 2 ^ 29"
    and fl: "fifo_flight w = int_bytes num @ arr_bytes arr @ rest"
    and op: "open_parent_ret env \<noteq> - 1"
  shows "(fst (parent_process_fifo env w) = Returns \<longrightarrow>
            printed (fst (snd (parent_process_fifo env w))) = arr) \<and>
         (malloc_ok env (size_bytes num) \<longrightarrow> (\<forall>j. 0 < read_sched env j) \<longrightarrow>
            fst (parent_process_fifo env w) = Returns \<and>
            printed (fst (snd (parent_process_fifo env w))) = arr \<and>
            (\<exists>es. fst (snd (parent_process_fifo env w)) =
               [Sys_open, Call_read_all sizeof_int, Sys_malloc (size_bytes num),
                Call_read_all (size_bytes num)] @ map Stdout_int arr @
               [Stdout_newline, Sys_free] @ es) \<and>
            fifo_flight (snd (snd (parent_process_fifo env w))) = rest \<and>
            FIFO_PATH \<notin> fs_names (snd (snd (parent_process_fifo env w))))"
proof -
  have sb: "size_bytes num = 4 * length arr" using v by (simp add: size_bytes_valid)
  have soc: "size_of_count num = length arr" using v by (simp add: size_of_count_valid)
  have ln: "length arr < 2 ^ 31" using v by simp
  obtain r1 buf1 st1 where r1: "read_all (sys_read (read_sched env)) (0, int_bytes num @ arr_bytes arr @ rest) sizeof_int =
        Some (r1, buf1, st1)"
    by (metis sys_read_total sizeof_int_le)
  obtain r2 buf2 st2 where r2: "read_all (sys_read (read_sched env)) st1 (4 * length arr) =
        Some (r2, buf2, st2)"
    using count_bytes_le [OF ln] by (metis sys_read_total)
  note cr = consumer_reads [OF r1 r2 ln]
  obtain cs1 w1 where c1: "cleanup_fifo (w\<lparr>fifo_flight := snd st1\<rparr>) = (cs1, w1)" by (metis surj_pair)
  obtain cs2 w2 where c2: "cleanup_fifo (w\<lparr>fifo_flight := snd st2\<rparr>) = (cs2, w2)" by (metis surj_pair)
  note t2 = cleanup_fifo_trace [OF c2]
  show ?thesis
  proof (cases "r1 = - 1")
    case True
    then have "fst (parent_process_fifo env w) = Exits EXIT_FAILURE"
      using op by (simp add: parent_process_fifo_def fl r1 c1)
    moreover have "\<not> (\<forall>j. 0 < read_sched env j)" using cr True by blast
    ultimately show ?thesis by auto
  next
    case n1: False
    have d1: "r1 = 4" "bytes_int buf1 = num" using cr n1 by blast+
    show ?thesis
    proof (cases "malloc_ok env (4 * length arr)")
      case False
      then show ?thesis using n1 d1 op by (simp add: parent_process_fifo_def fl r1 sb c1)
    next
      case m: True
      show ?thesis
      proof (cases "r2 = - 1")
        case True
        then have "fst (parent_process_fifo env w) = Exits EXIT_FAILURE"
          using n1 d1 m op by (simp add: parent_process_fifo_def fl r1 r2 sb c2)
        moreover have "\<not> (\<forall>j. 0 < read_sched env j)" using cr n1 True by blast
        ultimately show ?thesis by auto
      next
        case n2: False
        have d2: "r2 = int (4 * length arr)" "bytes_arr buf2 = arr" "snd st2 = rest"
          using cr n1 n2 by blast+
        have pl: "print_loop 0 (length arr) arr = (Returns, map Stdout_int arr)"
          using print_loop_all [of 0 arr] by simp
        have e: "parent_process_fifo env w =
          (Returns,
           [Sys_open, Call_read_all sizeof_int, Sys_malloc (4 * length arr),
            Call_read_all (4 * length arr)] @ map Stdout_int arr @
           [Stdout_newline, Sys_free] @ close_fd env @ cs2 @
           Sys_wait (wait_ret env) # (if wait_ret env = - 1 then [Perror ''wait''] else []),
           w2)"
          using n1 d1 m n2 d2(2) pl op by (simp add: parent_process_fifo_def fl r1 r2 sb soc c2)
        have p: "printed ([Sys_open, Call_read_all sizeof_int, Sys_malloc (4 * length arr),
            Call_read_all (4 * length arr)] @ map Stdout_int arr @
           [Stdout_newline, Sys_free] @ close_fd env @ cs2 @
           Sys_wait (wait_ret env) # (if wait_ret env = - 1 then [Perror ''wait''] else [])) = arr"
          using t2 close_fd_trace [of env]
          by (simp add: printed_append printed_map_Stdout_int)
        have "fifo_flight w2 = rest" using t2 d2(3) by simp
        then show ?thesis unfolding e using p t2 by (simp add: sb)
      qed
    qed
  qed
qed

lemma parent_process_fifo_unchecked:
  assumes "open_parent_ret env \<noteq> - 1"
    and "read_all (sys_read (read_sched env)) (0, fifo_flight w) sizeof_int = Some (r1, buf1, st1)"
    and "r1 \<noteq> - 1"
  shows "\<exists>es. fst (snd (parent_process_fifo env w)) =
           Sys_open # Call_read_all sizeof_int # Sys_malloc (size_bytes (bytes_int buf1)) # es"
  using assms by (simp add: parent_process_fifo_def split: prod.splits option.splits)

lemma child_process_shm_rejects:
  assumes "sint num \<le> 0 \<or> sint num > shm_limit"
  shows "fst (child_process_shm env ptr shm_fd (Some num # rest) w) = Exits EXIT_FAILURE \<and>
         snd (snd (child_process_shm env ptr shm_fd (Some num # rest) w)) = w \<and>
         accesses (fst (snd (child_process_shm env ptr shm_fd (Some num # rest) w))) = []"
proof -
  obtain cs w1 where c: "cleanup_shm env ptr shm_fd 0 w = (cs, w1)" by (metis surj_pair)
  from assms c cleanup_shm_keep [OF c] show ?thesis
    by (simp add: child_process_shm_def)
qed

lemma parent_process_shm_rejects:
  assumes "wait_ret env = 0" and "sint (segment w 0) \<le> 0 \<or> sint (segment w 0) > shm_limit"
  shows "fst (parent_process_shm env Mapped shm_fd w) = Exits EXIT_FAILURE \<and>
         accesses (fst (snd (parent_process_shm env Mapped shm_fd w))) = [0] \<and>
         printed (fst (snd (parent_process_shm env Mapped shm_fd w))) = []"
proof -
  obtain cs w1 where c: "cleanup_shm env Mapped shm_fd 1 w = (cs, w1)" by (metis surj_pair)
  have ld: "shm_load Mapped (segment w) 0 = Some (segment w 0)"
    by (simp add: shm_load_def in_segment_iff)
  from assms c ld cleanup_shm_trace [OF c] show ?thesis
    by (simp add: parent_process_shm_def accesses_append printed_append)
qed

lemma ok_env_reads: "\<forall>j. 0 < read_sched ok_env j"
  by (simp add: ok_env_def)

lemma main_pipe_round_trip:
  assumes v: "1 \<le> sint num" "length arr = nat (sint num)" "sint num \<le> pipe_limit"
    and io: "io_ok env"
  shows "\<exists>pe ce. main_pipe env (Some num # map Some arr @ rest) =
           ((Exits EXIT_SUCCESS, pe), Some (Exits EXIT_SUCCESS, ce), []) \<and> printed pe = arr"
proof -
  let ?inp = "Some num # map Some arr @ rest"
  have le: "sint num \<le> 256" using v by (simp add: pipe_limit_eq)
  have v0: "0 \<le> sint num" "sint num < 2 ^ 29" using v le by simp_all
  have e: "pipe_ret env \<noteq> - 1" "fork_ret env \<noteq> - 1" "fork_ret env \<noteq> 0" "close_ret env \<noteq> - 1"
    "wait_ret env \<noteq> - 1" "malloc_ok env (size_bytes num)" "\<forall>j. 0 < write_sched env j"
    "\<forall>j. 0 < read_sched env j"
    using io by (simp_all add: io_ok_def)
  obtain cf ce fl1 where c: "child_process_pipe env ?inp [] = (cf, ce, fl1)" by (metis surj_pair)
  from child_process_pipe_run [OF v(1,2) le, of env rest "[]"] e(6,7) c
  have cr: "cf = Returns" "fl1 = int_bytes num @ arr_bytes arr" by simp_all
  have p: "parent_process_pipe env (int_bytes num @ arr_bytes arr) =
      (Returns,
       [Call_read_all sizeof_int, Sys_malloc (size_bytes num), Call_read_all (size_bytes num)] @
       map Stdout_int arr @ [Stdout_newline, Sys_free, Sys_wait (wait_ret env)], [])"
    using parent_process_pipe_run [OF v0(1) v(2) v0(2), where env = env and rest = "[]"] e(5,6,8)
    by simp
  have "main_pipe env ?inp =
      ((Exits EXIT_SUCCESS,
        [Sys_pipe, Sys_fork] @ Sys_close #
        ([Call_read_all sizeof_int, Sys_malloc (size_bytes num), Call_read_all (size_bytes num)] @
         map Stdout_int arr @ [Stdout_newline, Sys_free, Sys_wait (wait_ret env)]) @ [Sys_close]),
       Some (Exits EXIT_SUCCESS, Sys_close # ce @ [Sys_close]), [])"
    using e(1-4) c cr p by (simp add: main_pipe_def after_fork_pipe_def main_return_def)
  moreover have "printed ([Sys_pipe, Sys_fork] @ Sys_close #
        ([Call_read_all sizeof_int, Sys_malloc (size_bytes num), Call_read_all (size_bytes num)] @
         map Stdout_int arr @ [Stdout_newline, Sys_free, Sys_wait (wait_ret env)]) @ [Sys_close]) = arr"
    by (simp add: printed_append printed_map_Stdout_int)
  ultimately show ?thesis by blast
qed

lemma main_fifo_session:
  assumes v: "1 \<le> sint num" "length arr = nat (sint num)" "sint num \<le> pipe_limit"
    and io: "io_ok env"
    and f: "0 \<le> sint a" "length xs = nat (sint a)" "sint a < 2 ^ 29"
    and st: "fifo_flight w @ int_bytes num @ arr_bytes arr = int_bytes a @ arr_bytes xs @ rest'"
  shows "\<exists>pe ce w'. main_fifo env (Some num # map Some arr @ rest) w =
           ((Exits EXIT_SUCCESS, pe), Some (Exits EXIT_SUCCESS, ce), w') \<and> printed pe = xs \<and>
           fifo_flight w' = rest' \<and> FIFO_PATH \<notin> fs_names w'"
proof -
  let ?inp = "Some num # map Some arr @ rest"
  have le: "sint num \<le> 256" using v by (simp add: pipe_limit_eq)
  have e: "mkfifo_fail env = None \<or> mkfifo_fail env = Some EEXIST"
    "fork_ret env \<noteq> - 1" "fork_ret env \<noteq> 0" "open_child_ret env \<noteq> - 1"
    "open_parent_ret env \<noteq> - 1" "malloc_ok env (size_bytes num)" "\<forall>j. 0 < write_sched env j"
    "\<forall>j. 0 < read_sched env j" "malloc_ok env (size_bytes a)"
    using io by (simp_all add: io_ok_def)
  obtain ret err names1 where mk: "sys_mkfifo (mkfifo_fail env) FIFO_PATH (fs_names w) = (ret, err, names1)"
    by (metis surj_pair)
  have nf: "\<not> (ret = - 1 \<and> err \<noteq> Some EEXIST)"
    using mk e(1) by (auto simp: sys_mkfifo_def split: if_splits)
  let ?w1 = "w\<lparr>fs_names := names1\<rparr>"
  obtain cf ce w2 where c: "child_process_fifo env ?inp ?w1 = (cf, ce, w2)" by (metis surj_pair)
  from child_process_fifo_run [OF v(1,2) le e(4), of rest ?w1] e(6,7) c
  have cr: "cf = Returns" "w2 = ?w1\<lparr>fifo_flight := fifo_flight w @ int_bytes num @ arr_bytes arr\<rparr>"
    by simp_all
  have fl: "fifo_flight w2 = int_bytes a @ arr_bytes xs @ rest'" using cr(2) st by simp
  obtain pf pe w3 where p: "parent_process_fifo env w2 = (pf, pe, w3)" by (metis surj_pair)
  from parent_process_fifo_run [OF f(1) f(2) f(3) fl e(5)] e(9,8) p
  have pr: "pf = Returns" "printed pe = xs" "fifo_flight w3 = rest'" "FIFO_PATH \<notin> fs_names w3"
    by simp_all
  have "main_fifo env ?inp w =
      ((Exits EXIT_SUCCESS, [Sys_mkfifo, Sys_fork] @ pe), Some (Exits EXIT_SUCCESS, ce), w3)"
    using nf e(2,3) c cr(1) p pr(1)
    by (simp add: main_fifo_def mk after_fork_fifo_def main_return_def)
  moreover have "printed ([Sys_mkfifo, Sys_fork] @ pe) = xs" using pr(2) by simp
  ultimately show ?thesis using pr(3,4) by blast
qed

lemma main_fifo_round_trip:
  assumes v: "1 \<le> sint num" "length arr = nat (sint num)" "sint num \<le> pipe_limit"
    and io: "io_ok env" and empty: "fifo_flight w = []"
  shows "\<exists>pe ce w'. main_fifo env (Some num # map Some arr @ rest) w =
           ((Exits EXIT_SUCCESS, pe), Some (Exits EXIT_SUCCESS, ce), w') \<and> printed pe = arr \<and>
           fifo_flight w' = [] \<and> FIFO_PATH \<notin> fs_names w'"
proof -
  have le: "sint num \<le> 256" using v by (simp add: pipe_limit_eq)
  have v0: "0 \<le> sint num" "sint num < 2 ^ 29" using v le by simp_all
  have st: "fifo_flight w @ int_bytes num @ arr_bytes arr = int_bytes num @ arr_bytes arr @ []"
    using empty by simp
  from main_fifo_session [OF v io v0(1) v(2) v0(2) st] show ?thesis .
qed

lemma main_shm_session:
  assumes v: "1 \<le> sint num" "length arr = nat (sint num)" "sint num \<le> shm_limit"
    and io: "io_ok env" and wt: "wait_ret env \<noteq> 0"
  shows "\<exists>pe ce w'. main_shm env (Some num # map Some arr @ rest) sw =
           ((Exits EXIT_FAILURE, pe), Some (Exits EXIT_SUCCESS, ce), w') \<and>
           printed pe = [] \<and> accesses pe = [] \<and>
           segment w' 0 = num \<and> map (segment w') [1..<Suc (nat (sint num))] = arr"
proof -
  let ?inp = "Some num # map Some arr @ rest"
  let ?w1 = "sw\<lparr>shm_names := insert SHM_NAME (shm_names sw)\<rparr>"
  have le: "sint num \<le> 255" using v by (simp add: shm_limit_eq)
  have e: "shm_open_ret env \<noteq> - 1" "ftruncate_ret env \<noteq> - 1" "mmap_ret env = Mapped"
    "fork_ret env \<noteq> - 1" "fork_ret env \<noteq> 0"
    using io by (simp_all add: io_ok_def)
  from child_process_shm_complete [OF v(1) le v(2), of env "shm_open_ret env" rest ?w1]
  obtain ce sw1 where c: "child_process_shm env Mapped (shm_open_ret env) ?inp ?w1 = (Returns, ce, sw1)"
    and s0: "segment sw1 0 = num"
    and sj: "\<forall>j. 0 < j \<and> j \<le> nat (sint num) \<longrightarrow> segment sw1 j = arr ! (j - 1)"
    by blast
  have m: "map (segment sw1) [1..<Suc (nat (sint num))] = arr"
  proof (rule nth_equalityI)
    show "length (map (segment sw1) [1..<Suc (nat (sint num))]) = length arr"
      using v(2) by simp
  next
    fix i assume "i < length (map (segment sw1) [1..<Suc (nat (sint num))])"
    then have i: "i < nat (sint num)" by (simp del: upt_Suc)
    then have "map (segment sw1) [1..<Suc (nat (sint num))] ! i = segment sw1 (1 + i)"
      by (simp del: upt_Suc)
    also have "\<dots> = arr ! i" using sj i by simp
    finally show "map (segment sw1) [1..<Suc (nat (sint num))] ! i = arr ! i" .
  qed
  obtain pf pe sw2 where p: "parent_process_shm env Mapped (shm_open_ret env) sw1 = (pf, pe, sw2)"
    by (metis surj_pair)
  from parent_process_shm_wait_nonzero [OF wt p]
  have pr: "pf = Exits EXIT_FAILURE" "accesses pe = []" "printed pe = []" "segment sw2 = segment sw1"
    by simp_all
  have "main_shm env ?inp sw =
      ((Exits EXIT_FAILURE, [Sys_shm_open, Sys_ftruncate, Sys_mmap, Sys_fork] @ pe),
       Some (Exits EXIT_SUCCESS, ce), sw2)"
    using e c p pr(1) by (simp add: main_shm_def after_fork_shm_def main_return_def)
  moreover have "printed ([Sys_shm_open, Sys_ftruncate, Sys_mmap, Sys_fork] @ pe) = []"
    using pr(3) by simp
  moreover have "accesses ([Sys_shm_open, Sys_ftruncate, Sys_mmap, Sys_fork] @ pe) = []"
    using pr(2) by simp
  ultimately show ?thesis using s0 m pr(4) by auto
qed

lemma parent_process_shm_bad_count:
  assumes "sint (segment w 0) \<le> 0 \<or> sint (segment w 0) > shm_limit"
  shows "fst (parent_process_shm env Mapped shm_fd w) = Exits EXIT_FAILURE \<and>
         printed (fst (snd (parent_process_shm env Mapped shm_fd w))) = [] \<and>
         set (accesses (fst (snd (parent_process_shm env Mapped shm_fd w)))) \<subseteq> {0}"
proof (cases "wait_ret env = 0")
  case True
  from parent_process_shm_rejects [OF True assms, of shm_fd] show ?thesis by simp
next
  case False
  obtain f es w' where p: "parent_process_shm env Mapped shm_fd w = (f, es, w')"
    by (metis surj_pair)
  from parent_process_shm_wait_nonzero [OF False p] show ?thesis by (simp add: p)
qed

lemma io_ok_ok_env: "io_ok ok_env"
  by (simp add: io_ok_def ok_env_def)

lemma main_pipe_inline_child_run:
  assumes v: "1 \<le> sint num" "length arr = nat (sint num)" "sint num \<le> 256"
  shows "(fst (main_pipe_inline_child env (Some num # map Some arr @ rest) flight) = Returns \<longrightarrow>
            snd (snd (main_pipe_inline_child env (Some num # map Some arr @ rest) flight)) =
              flight @ int_bytes num @ arr_bytes arr) \<and>
         (malloc_ok env (size_bytes num) \<longrightarrow> (\<forall>j. 0 < write_sched env j) \<longrightarrow>
            fst (main_pipe_inline_child env (Some num # map Some arr @ rest) flight) = Returns)"
proof -
  let ?inp = "Some num # map Some arr @ rest"
  have ok: "\<not> (sint num \<le> 0 \<or> sint num > pipe_limit)" using v by (simp add: pipe_limit_eq)
  have sb: "size_bytes num = 4 * length arr" using v by (simp add: size_bytes_valid)
  have soc: "size_of_count num = length arr" using v by (simp add: size_of_count_valid)
  have sl: "scan_loop 0 (length arr) (map Some arr @ rest) [] = Some arr"
    using scan_loop_complete [of arr "length arr" 0 rest "[]"] by simp
  have ln: "length arr < 2 ^ 31" using v by simp
  obtain r1 st1 where w1: "write_all (sys_write (write_sched env)) (0, flight) (int_bytes num) sizeof_int =
        Some (r1, st1)"
    by (metis sys_write_total sizeof_int_le)
  obtain r2 st2 where w2: "write_all (sys_write (write_sched env)) st1 (arr_bytes arr) (4 * length arr) =
        Some (r2, st2)"
    using count_bytes_le [OF ln] by (metis sys_write_total)
  note pw = producer_writes [OF w1 w2 ln]
  show ?thesis
  proof (cases "malloc_ok env (4 * length arr)")
    case False
    then show ?thesis by (simp add: main_pipe_inline_child_def ok sb)
  next
    case m: True
    show ?thesis
    proof (cases "r1 = - 1")
      case True
      then have "fst (main_pipe_inline_child env ?inp flight) = Exits EXIT_FAILURE"
        using m by (simp add: main_pipe_inline_child_def ok sb soc sl w1)
      moreover have "\<not> (\<forall>j. 0 < write_sched env j)" using pw True by blast
      ultimately show ?thesis by auto
    next
      case n1: False
      show ?thesis
      proof (cases "r2 = - 1")
        case True
        then have "fst (main_pipe_inline_child env ?inp flight) = Exits EXIT_FAILURE"
          using m n1 by (simp add: main_pipe_inline_child_def ok sb soc sl w1 w2)
        moreover have "\<not> (\<forall>j. 0 < write_sched env j)" using pw True by blast
        ultimately show ?thesis by auto
      next
        case n2: False
        have "snd st2 = flight @ int_bytes num @ arr_bytes arr" using pw n1 n2 by blast
        then show ?thesis
          using m n1 n2 by (simp add: main_pipe_inline_child_def ok sb soc sl w1 w2)
      qed
    qed
  qed
qed

lemma main_pipe_inline_child_rejects:
  "sint num \<le> 0 \<or> sint num > pipe_limit \<Longrightarrow>
   main_pipe_inline_child env (Some num # rest) flight =
     (Exits EXIT_FAILURE,
      [Sys_close, Stdout ''Enter number of elements: '', Stderr ''0 < num < 257''], flight)"
  by (simp add: main_pipe_inline_child_def)

lemma main_pipe_inline_parent_run:
  assumes v: "0 \<le> sint num" "length arr = nat (sint num)"
  shows "(fst (main_pipe_inline_parent env (int_bytes num @ arr_bytes arr @ rest)) = Returns \<longrightarrow>
            printed (fst (snd (main_pipe_inline_parent env (int_bytes num @ arr_bytes arr @ rest)))) = arr) \<and>
         (malloc_ok env (size_bytes num) \<longrightarrow> (\<forall>j. 0 < read_sched env j) \<longrightarrow>
            main_pipe_inline_parent env (int_bytes num @ arr_bytes arr @ rest) =
              (Returns,
               [Sys_close, Call_read_all sizeof_int, Sys_malloc (size_bytes num),
                Call_read_all (size_bytes num)] @
               map Stdout_int arr @ [Stdout_newline, Sys_free, Sys_close, Sys_wait (wait_ret env)],
               rest))"
proof -
  let ?fl = "int_bytes num @ arr_bytes arr @ rest"
  have sb: "size_bytes num = 4 * length arr" using v by (simp add: size_bytes_valid)
  have soc: "size_of_count num = length arr" using v by (simp add: size_of_count_valid)
  have ln: "length arr < 2 ^ 31" using v sint_lt [of num] by simp
  obtain r1 buf1 st1 where r1: "read_all (sys_read (read_sched env)) (0, ?fl) sizeof_int =
        Some (r1, buf1, st1)"
    by (metis sys_read_total sizeof_int_le)
  obtain r2 buf2 st2 where r2: "read_all (sys_read (read_sched env)) st1 (4 * length arr) =
        Some (r2, buf2, st2)"
    using count_bytes_le [OF ln] by (metis sys_read_total)
  note cr = consumer_reads [OF r1 r2 ln]
  show ?thesis
  proof (cases "r1 = - 1")
    case True
    then have "fst (main_pipe_inline_parent env ?fl) = Exits EXIT_FAILURE"
      by (simp add: main_pipe_inline_parent_def r1)
    moreover have "\<not> (\<forall>j. 0 < read_sched env j)" using cr True by blast
    ultimately show ?thesis by auto
  next
    case n1: False
    have d1: "r1 = 4" "bytes_int buf1 = num" using cr n1 by blast+
    show ?thesis
    proof (cases "malloc_ok env (4 * length arr)")
      case False
      then show ?thesis using n1 d1 by (simp add: main_pipe_inline_parent_def r1 sb)
    next
      case m: True
      show ?thesis
      proof (cases "r2 = - 1")
        case True
        then have "fst (main_pipe_inline_parent env ?fl) = Exits EXIT_FAILURE"
          using n1 d1 m by (simp add: main_pipe_inline_parent_def r1 r2 sb)
        moreover have "\<not> (\<forall>j. 0 < read_sched env j)" using cr n1 True by blast
        ultimately show ?thesis by auto
      next
        case n2: False
        have d2: "r2 = int (4 * length arr)" "bytes_arr buf2 = arr" "snd st2 = rest"
          using cr n1 n2 by blast+
        have pl: "print_loop 0 (length arr) arr = (Returns, map Stdout_int arr)"
          using print_loop_all [of 0 arr] by simp
        show ?thesis
          using n1 d1 m n2 d2(2,3) pl
          by (simp add: main_pipe_inline_parent_def r1 r2 sb soc printed_append printed_map_Stdout_int)
      qed
    qed
  qed
qed

lemma main_pipe_inline_parent_unchecked:
  assumes "read_all (sys_read (read_sched env)) (0, flight) sizeof_int = Some (r1, buf1, st1)"
    and "r1 \<noteq> - 1"
  shows "\<exists>es. fst (snd (main_pipe_inline_parent env flight)) =
           Sys_close # Call_read_all sizeof_int # Sys_malloc (size_bytes (bytes_int buf1)) # es"
  using assms by (simp add: main_pipe_inline_parent_def split: prod.splits option.splits)

lemma main_pipe_inline_round_trip:
  assumes v: "1 \<le> sint num" "length arr = nat (sint num)" "sint num \<le> pipe_limit"
    and io: "io_ok env"
  shows "\<exists>pe ce. main_pipe_inline env (Some num # map Some arr @ rest) =
           ((Exits EXIT_SUCCESS, pe), Some (Exits EXIT_SUCCESS, ce), []) \<and> printed pe = arr"
proof -
  let ?inp = "Some num # map Some arr @ rest"
  have le: "sint num \<le> 256" using v by (simp add: pipe_limit_eq)
  have v0: "0 \<le> sint num" using v by simp
  have e: "pipe_ret env \<noteq> - 1" "fork_ret env \<noteq> - 1" "fork_ret env \<noteq> 0"
    "malloc_ok env (size_bytes num)" "\<forall>j. 0 < write_sched env j" "\<forall>j. 0 < read_sched env j"
    using io by (simp_all add: io_ok_def)
  obtain cf ce fl1 where c: "main_pipe_inline_child env ?inp [] = (cf, ce, fl1)" by (metis surj_pair)
  from main_pipe_inline_child_run [OF v(1,2) le, of env rest "[]"] e(4,5) c
  have cr: "cf = Returns" "fl1 = int_bytes num @ arr_bytes arr" by simp_all
  have p: "main_pipe_inline_parent env (int_bytes num @ arr_bytes arr) =
      (Returns,
       [Sys_close, Call_read_all sizeof_int, Sys_malloc (size_bytes num),
        Call_read_all (size_bytes num)] @
       map Stdout_int arr @ [Stdout_newline, Sys_free, Sys_close, Sys_wait (wait_ret env)], [])"
    using main_pipe_inline_parent_run [OF v0 v(2), where env = env and rest = "[]"] e(4,6)
    by simp
  have "main_pipe_inline env ?inp =
      ((Exits EXIT_SUCCESS,
        [Sys_pipe, Sys_fork] @
        ([Sys_close, Call_read_all sizeof_int, Sys_malloc (size_bytes num),
          Call_read_all (size_bytes num)] @
         map Stdout_int arr @ [Stdout_newline, Sys_free, Sys_close, Sys_wait (wait_ret env)])),
       Some (Exits EXIT_SUCCESS, ce), [])"
    using e(1-3) c cr p by (simp add: main_pipe_inline_def after_fork_pipe_inline_def main_return_def)
  moreover have "printed ([Sys_pipe, Sys_fork] @
        ([Sys_close, Call_read_all sizeof_int, Sys_malloc (size_bytes num),
          Call_read_all (size_bytes num)] @
         map Stdout_int arr @ [Stdout_newline, Sys_free, Sys_close, Sys_wait (wait_ret env)])) = arr"
    by (simp add: printed_append printed_map_Stdout_int)
  ultimately show ?thesis by blast
qed

subsection \<open>Claims about the message exchange\<close>

text \<open>
  C3. The round trip of a message is lost in the shared-memory program. With the input
  \<open>3 10 20 30\<close> and every system call succeeding, the producer stores the count in slot 0
  and the payload in slots 1 to 3 and exits normally; \<^verbatim>\<open>wait\<close> returns the child's
  process id, the consumer's test \<^verbatim>\<open>wait(NULL) != 0\<close> takes the error branch, and the
  consumer exits with \<open>EXIT_FAILURE\<close> having loaded no slot and printed nothing: it
  observes neither the count nor the sequence. On the same input the two pipe programs and
  the FIFO program end with \<open>EXIT_SUCCESS\<close> in both processes, the consumer having printed
  exactly \<open>10 20 30\<close>.
\<close>

theorem shm_session_loses_message:
  "fst (fst (main_shm ok_env [Some 3, Some 10, Some 20, Some 30] fresh_shm)) = Exits EXIT_FAILURE \<and>
   printed (snd (fst (main_shm ok_env [Some 3, Some 10, Some 20, Some 30] fresh_shm))) = [] \<and>
   accesses (snd (fst (main_shm ok_env [Some 3, Some 10, Some 20, Some 30] fresh_shm))) = [] \<and>
   fst (snd (main_shm ok_env [Some 3, Some 10, Some 20, Some 30] fresh_shm)) =
     Some (Exits EXIT_SUCCESS,
           [Stdout ''Enter number of elements: '', Shm_store 0 3, Stdout ''Enter %d numbers: '',
            Shm_store 1 10, Shm_store 2 20, Shm_store 3 30, Sys_munmap, Sys_close]) \<and>
   map (segment (snd (snd (main_shm ok_env [Some 3, Some 10, Some 20, Some 30] fresh_shm))))
     [0, 1, 2, 3] = [3, 10, 20, 30] \<and>
   fst (fst (main_pipe ok_env [Some 3, Some 10, Some 20, Some 30])) = Exits EXIT_SUCCESS \<and>
   printed (snd (fst (main_pipe ok_env [Some 3, Some 10, Some 20, Some 30]))) = [10, 20, 30] \<and>
   fst (fst (main_pipe_inline ok_env [Some 3, Some 10, Some 20, Some 30])) = Exits EXIT_SUCCESS \<and>
   printed (snd (fst (main_pipe_inline ok_env [Some 3, Some 10, Some 20, Some 30]))) = [10, 20, 30] \<and>
   fst (fst (main_fifo ok_env [Some 3, Some 10, Some 20, Some 30] fresh_fifo)) = Exits EXIT_SUCCESS \<and>
   printed (snd (fst (main_fifo ok_env [Some 3, Some 10, Some 20, Some 30] fresh_fifo))) = [10, 20, 30]"
proof -
  have shm:
    "fst (fst (main_shm ok_env [Some 3, Some 10, Some 20, Some 30] fresh_shm)) = Exits EXIT_FAILURE \<and>
     printed (snd (fst (main_shm ok_env [Some 3, Some 10, Some 20, Some 30] fresh_shm))) = [] \<and>
     accesses (snd (fst (main_shm ok_env [Some 3, Some 10, Some 20, Some 30] fresh_shm))) = [] \<and>
     fst (snd (main_shm ok_env [Some 3, Some 10, Some 20, Some 30] fresh_shm)) =
       Some (Exits EXIT_SUCCESS,
             [Stdout ''Enter number of elements: '', Shm_store 0 3, Stdout ''Enter %d numbers: '',
              Shm_store 1 10, Shm_store 2 20, Shm_store 3 30, Sys_munmap, Sys_close]) \<and>
     map (segment (snd (snd (main_shm ok_env [Some 3, Some 10, Some 20, Some 30] fresh_shm))))
       [0, 1, 2, 3] = [3, 10, 20, 30]"
    by (simp add: main_shm_def after_fork_shm_def child_process_shm_def parent_process_shm_def
          ok_env_def fresh_shm_def shm_store_def in_segment_iff shm_limit_eq main_return_def
          child_store_loop.simps cleanup_shm_def sys_shm_unlink_def)
  have v: "(1::int) \<le> sint (3 :: cint)" "length [10, 20, 30 :: cint] = nat (sint (3 :: cint))"
    "sint (3 :: cint) \<le> pipe_limit"
    by (simp_all add: pipe_limit_eq)
  have e: "fifo_flight fresh_fifo = []" by (simp add: fresh_fifo_def)
  have i: "Some 3 # map Some [10, 20, 30 :: cint] @ [] = [Some 3, Some 10, Some 20, Some 30]"
    by simp
  from main_pipe_round_trip [OF v io_ok_ok_env, of "[]", unfolded i]
  obtain pe ce where a: "main_pipe ok_env [Some 3, Some 10, Some 20, Some 30] =
           ((Exits EXIT_SUCCESS, pe), Some (Exits EXIT_SUCCESS, ce), [])" "printed pe = [10, 20, 30]"
    by blast
  from main_pipe_inline_round_trip [OF v io_ok_ok_env, of "[]", unfolded i]
  obtain pi ci where a': "main_pipe_inline ok_env [Some 3, Some 10, Some 20, Some 30] =
           ((Exits EXIT_SUCCESS, pi), Some (Exits EXIT_SUCCESS, ci), [])" "printed pi = [10, 20, 30]"
    by blast
  from main_fifo_round_trip [OF v io_ok_ok_env e, of "[]", unfolded i]
  obtain pe' ce' w' where b: "main_fifo ok_env [Some 3, Some 10, Some 20, Some 30] fresh_fifo =
           ((Exits EXIT_SUCCESS, pe'), Some (Exits EXIT_SUCCESS, ce'), w')" "printed pe' = [10, 20, 30]"
    by blast
  show ?thesis using shm a a' b by simp
qed

text \<open>
  C4, as stated, fails on the FIFO and pipe consumers. The FIFO is a path in the file system
  that any process may write to. A stream that carries the count 257, above the limit of
  256, and 257 integers is accepted by the FIFO consumer: it allocates 1028 bytes, prints
  the 257 integers and returns normally. So does the whole FIFO session when another
  process has put those bytes into the FIFO ahead of the child's own message. A count of 0
  is accepted as well. The consumers of both pipe programs have no check either and behave
  the same on such a stream (in a session of the pipe program the only writer is the child,
  which has tested the count).
\<close>

theorem fifo_consumer_accepts_unchecked_count:
  "sint (257 :: cint) > pipe_limit \<and>
   fst (parent_process_fifo ok_env
          \<lparr>fifo_flight = int_bytes 257 @ arr_bytes (replicate 257 5), fs_names = {FIFO_PATH}\<rparr>) =
     Returns \<and>
   printed (fst (snd (parent_process_fifo ok_env
          \<lparr>fifo_flight = int_bytes 257 @ arr_bytes (replicate 257 5), fs_names = {FIFO_PATH}\<rparr>))) =
     replicate 257 5 \<and>
   (\<exists>es. fst (snd (parent_process_fifo ok_env
          \<lparr>fifo_flight = int_bytes 257 @ arr_bytes (replicate 257 5), fs_names = {FIFO_PATH}\<rparr>)) =
      [Sys_open, Call_read_all 4, Sys_malloc 1028, Call_read_all 1028] @
      map Stdout_int (replicate 257 5) @ [Stdout_newline, Sys_free] @ es) \<and>
   fst (fst (main_fifo ok_env [Some 1, Some 42]
          \<lparr>fifo_flight = int_bytes 257 @ arr_bytes (replicate 257 5), fs_names = {FIFO_PATH}\<rparr>)) =
     Exits EXIT_SUCCESS \<and>
   printed (snd (fst (main_fifo ok_env [Some 1, Some 42]
          \<lparr>fifo_flight = int_bytes 257 @ arr_bytes (replicate 257 5), fs_names = {FIFO_PATH}\<rparr>))) =
     replicate 257 5 \<and>
   sint (0 :: cint) \<le> 0 \<and>
   fst (parent_process_fifo ok_env \<lparr>fifo_flight = int_bytes 0, fs_names = {FIFO_PATH}\<rparr>) =
     Returns \<and>
   parent_process_pipe ok_env (int_bytes 257 @ arr_bytes (replicate 257 5)) =
     (Returns,
      [Call_read_all 4, Sys_malloc 1028, Call_read_all 1028] @
      map Stdout_int (replicate 257 5) @ [Stdout_newline, Sys_free, Sys_wait 4242], []) \<and>
   main_pipe_inline_parent ok_env (int_bytes 257 @ arr_bytes (replicate 257 5)) =
     (Returns,
      [Sys_close, Call_read_all 4, Sys_malloc 1028, Call_read_all 1028] @
      map Stdout_int (replicate 257 5) @ [Stdout_newline, Sys_free, Sys_close, Sys_wait 4242], [])"
proof -
  let ?fw = "\<lparr>fifo_flight = int_bytes 257 @ arr_bytes (replicate 257 5), fs_names = {FIFO_PATH}\<rparr>"
  have s1: "size_bytes 257 = 1028" by (simp add: size_bytes_def sizeof_int_def)
  have w: "wait_ret ok_env = 4242" by (simp add: ok_env_def)
  have env: "malloc_ok ok_env n" "open_parent_ret ok_env \<noteq> - 1" for n
    by (simp_all add: ok_env_def)
  have v: "(0::int) \<le> sint (257 :: cint)" "length (replicate 257 (5 :: cint)) = nat (sint (257 :: cint))"
    "sint (257 :: cint) < 2 ^ 29"
    by simp_all
  have fl: "fifo_flight ?fw = int_bytes 257 @ arr_bytes (replicate 257 5) @ []" by simp
  from parent_process_fifo_run [OF v fl env(2)] env(1) ok_env_reads
  have a: "fst (parent_process_fifo ok_env ?fw) = Returns"
    "printed (fst (snd (parent_process_fifo ok_env ?fw))) = replicate 257 5"
    "\<exists>es. fst (snd (parent_process_fifo ok_env ?fw)) =
      [Sys_open, Call_read_all 4, Sys_malloc 1028, Call_read_all 1028] @
      map Stdout_int (replicate 257 5) @ [Stdout_newline, Sys_free] @ es"
    unfolding s1 by (simp_all add: sizeof_int_def)
  have c: "(1::int) \<le> sint (1 :: cint)" "length [42 :: cint] = nat (sint (1 :: cint))"
    "sint (1 :: cint) \<le> pipe_limit"
    by (simp_all add: pipe_limit_eq)
  have st: "fifo_flight ?fw @ int_bytes 1 @ arr_bytes [42] =
              int_bytes 257 @ arr_bytes (replicate 257 5) @ (int_bytes 1 @ arr_bytes [42])"
    by simp
  have i: "Some 1 # map Some [42 :: cint] @ [] = [Some 1, Some 42]" by simp
  from main_fifo_session [OF c io_ok_ok_env v st, of "[]", unfolded i]
  obtain pe ce w' where b: "main_fifo ok_env [Some 1, Some 42] ?fw =
      ((Exits EXIT_SUCCESS, pe), Some (Exits EXIT_SUCCESS, ce), w')" "printed pe = replicate 257 5"
    by blast
  have v0: "(0::int) \<le> sint (0 :: cint)" "length ([] :: cint list) = nat (sint (0 :: cint))"
    "sint (0 :: cint) < 2 ^ 29"
    by simp_all
  have fl0: "fifo_flight \<lparr>fifo_flight = int_bytes 0, fs_names = {FIFO_PATH}\<rparr> =
               int_bytes 0 @ arr_bytes [] @ []"
    by (simp add: arr_bytes_def)
  from parent_process_fifo_run [OF v0 fl0 env(2)] env(1) ok_env_reads
  have z: "fst (parent_process_fifo ok_env \<lparr>fifo_flight = int_bytes 0, fs_names = {FIFO_PATH}\<rparr>) =
             Returns"
    by simp
  have p: "parent_process_pipe ok_env (int_bytes 257 @ arr_bytes (replicate 257 5)) =
     (Returns,
      [Call_read_all 4, Sys_malloc 1028, Call_read_all 1028] @
      map Stdout_int (replicate 257 5) @ [Stdout_newline, Sys_free, Sys_wait 4242], [])"
    using parent_process_pipe_run [OF v, where env = ok_env and rest = "[]"] env(1) ok_env_reads
    unfolding s1 w by (simp add: sizeof_int_def)
  have q: "main_pipe_inline_parent ok_env (int_bytes 257 @ arr_bytes (replicate 257 5)) =
     (Returns,
      [Sys_close, Call_read_all 4, Sys_malloc 1028, Call_read_all 1028] @
      map Stdout_int (replicate 257 5) @ [Stdout_newline, Sys_free, Sys_close, Sys_wait 4242], [])"
    using main_pipe_inline_parent_run [OF v(1,2), where env = ok_env and rest = "[]"] env(1)
          ok_env_reads
    unfolding s1 w by (simp add: sizeof_int_def)
  have l: "sint (257 :: cint) > pipe_limit" "sint (0 :: cint) \<le> 0" by (simp_all add: pipe_limit_eq)
  from l a b z p q show ?thesis by simp
qed

text \<open>
  C4, amended. The consumers of the pipe and FIFO programs do not validate the count they
  decode. Whatever count the first \<open>read_all\<close> delivers is passed to the allocation right
  after it, with no test in between; and a stream that carries a count \<open>n\<close> with
  \<open>0 \<le> n < 2 ^ 29\<close> (0 and the values above 256 included) followed by \<open>n\<close> integers is
  read and printed in full, the consumer ending normally with the rest of the stream
  untouched, when the allocation and the reads succeed (and \<^verbatim>\<open>open\<close> for the FIFO, and
  \<^verbatim>\<open>wait\<close> where its result is checked). In the shared-memory consumer a count \<open>\<le> 0\<close> or
  above 255 in slot 0 never leads to a payload access or to output: on every path the
  consumer exits with \<open>EXIT_FAILURE\<close> having loaded at most slot 0.
\<close>

theorem stream_consumers_do_not_validate_count:
  "(sint (segment sw 0) \<le> 0 \<or> sint (segment sw 0) > shm_limit \<longrightarrow>
      fst (parent_process_shm env Mapped shm_fd sw) = Exits EXIT_FAILURE \<and>
      printed (fst (snd (parent_process_shm env Mapped shm_fd sw))) = [] \<and>
      set (accesses (fst (snd (parent_process_shm env Mapped shm_fd sw)))) \<subseteq> {0}) \<and>
   (0 \<le> sint num \<and> sint num < 2 ^ 29 \<and> length arr = nat (sint num) \<and>
    malloc_ok env (size_bytes num) \<and> (\<forall>j. 0 < read_sched env j) \<longrightarrow>
      (wait_ret env \<noteq> - 1 \<longrightarrow>
         parent_process_pipe env (int_bytes num @ arr_bytes arr @ rest) =
           (Returns,
            [Call_read_all sizeof_int, Sys_malloc (size_bytes num), Call_read_all (size_bytes num)] @
            map Stdout_int arr @ [Stdout_newline, Sys_free, Sys_wait (wait_ret env)], rest)) \<and>
      main_pipe_inline_parent env (int_bytes num @ arr_bytes arr @ rest) =
        (Returns,
         [Sys_close, Call_read_all sizeof_int, Sys_malloc (size_bytes num),
          Call_read_all (size_bytes num)] @
         map Stdout_int arr @ [Stdout_newline, Sys_free, Sys_close, Sys_wait (wait_ret env)],
         rest) \<and>
      (open_parent_ret env \<noteq> - 1 \<and> fifo_flight fw = int_bytes num @ arr_bytes arr @ rest \<longrightarrow>
         fst (parent_process_fifo env fw) = Returns \<and>
         printed (fst (snd (parent_process_fifo env fw))) = arr \<and>
         (\<exists>es. fst (snd (parent_process_fifo env fw)) =
            [Sys_open, Call_read_all sizeof_int, Sys_malloc (size_bytes num),
             Call_read_all (size_bytes num)] @ map Stdout_int arr @
            [Stdout_newline, Sys_free] @ es) \<and>
         fifo_flight (snd (snd (parent_process_fifo env fw))) = rest \<and>
         FIFO_PATH \<notin> fs_names (snd (snd (parent_process_fifo env fw))))) \<and>
   (read_all (sys_read (read_sched env)) (0, flight) sizeof_int = Some (r1, buf1, st1) \<longrightarrow>
      (to_int32 r1 \<noteq> - 1 \<longrightarrow>
         (\<exists>es. fst (snd (parent_process_pipe env flight)) =
            Call_read_all sizeof_int # Sys_malloc (size_bytes (bytes_int buf1)) # es)) \<and>
      (r1 \<noteq> - 1 \<longrightarrow>
         (\<exists>es. fst (snd (main_pipe_inline_parent env flight)) =
            Sys_close # Call_read_all sizeof_int # Sys_malloc (size_bytes (bytes_int buf1)) # es)) \<and>
      (r1 \<noteq> - 1 \<and> open_parent_ret env \<noteq> - 1 \<and> fifo_flight fw = flight \<longrightarrow>
         (\<exists>es. fst (snd (parent_process_fifo env fw)) =
            Sys_open # Call_read_all sizeof_int # Sys_malloc (size_bytes (bytes_int buf1)) # es)))"
proof -
  have A: "sint (segment sw 0) \<le> 0 \<or> sint (segment sw 0) > shm_limit \<longrightarrow>
      fst (parent_process_shm env Mapped shm_fd sw) = Exits EXIT_FAILURE \<and>
      printed (fst (snd (parent_process_shm env Mapped shm_fd sw))) = [] \<and>
      set (accesses (fst (snd (parent_process_shm env Mapped shm_fd sw)))) \<subseteq> {0}"
    using parent_process_shm_bad_count [of sw env shm_fd] by blast
  have B: "0 \<le> sint num \<and> sint num < 2 ^ 29 \<and> length arr = nat (sint num) \<and>
    malloc_ok env (size_bytes num) \<and> (\<forall>j. 0 < read_sched env j) \<longrightarrow>
      (wait_ret env \<noteq> - 1 \<longrightarrow>
         parent_process_pipe env (int_bytes num @ arr_bytes arr @ rest) =
           (Returns,
            [Call_read_all sizeof_int, Sys_malloc (size_bytes num), Call_read_all (size_bytes num)] @
            map Stdout_int arr @ [Stdout_newline, Sys_free, Sys_wait (wait_ret env)], rest)) \<and>
      main_pipe_inline_parent env (int_bytes num @ arr_bytes arr @ rest) =
        (Returns,
         [Sys_close, Call_read_all sizeof_int, Sys_malloc (size_bytes num),
          Call_read_all (size_bytes num)] @
         map Stdout_int arr @ [Stdout_newline, Sys_free, Sys_close, Sys_wait (wait_ret env)],
         rest) \<and>
      (open_parent_ret env \<noteq> - 1 \<and> fifo_flight fw = int_bytes num @ arr_bytes arr @ rest \<longrightarrow>
         fst (parent_process_fifo env fw) = Returns \<and>
         printed (fst (snd (parent_process_fifo env fw))) = arr \<and>
         (\<exists>es. fst (snd (parent_process_fifo env fw)) =
            [Sys_open, Call_read_all sizeof_int, Sys_malloc (size_bytes num),
             Call_read_all (size_bytes num)] @ map Stdout_int arr @
            [Stdout_newline, Sys_free] @ es) \<and>
         fifo_flight (snd (snd (parent_process_fifo env fw))) = rest \<and>
         FIFO_PATH \<notin> fs_names (snd (snd (parent_process_fifo env fw))))"
  proof (intro impI)
    assume h: "0 \<le> sint num \<and> sint num < 2 ^ 29 \<and> length arr = nat (sint num) \<and>
      malloc_ok env (size_bytes num) \<and> (\<forall>j. 0 < read_sched env j)"
    then have v: "0 \<le> sint num" "length arr = nat (sint num)" "sint num < 2 ^ 29"
      and m: "malloc_ok env (size_bytes num)" and rd: "\<forall>j. 0 < read_sched env j"
      by simp_all
    have p1: "wait_ret env \<noteq> - 1 \<longrightarrow>
         parent_process_pipe env (int_bytes num @ arr_bytes arr @ rest) =
           (Returns,
            [Call_read_all sizeof_int, Sys_malloc (size_bytes num), Call_read_all (size_bytes num)] @
            map Stdout_int arr @ [Stdout_newline, Sys_free, Sys_wait (wait_ret env)], rest)"
      using parent_process_pipe_run [OF v, of env rest] m rd by blast
    have p2: "main_pipe_inline_parent env (int_bytes num @ arr_bytes arr @ rest) =
        (Returns,
         [Sys_close, Call_read_all sizeof_int, Sys_malloc (size_bytes num),
          Call_read_all (size_bytes num)] @
         map Stdout_int arr @ [Stdout_newline, Sys_free, Sys_close, Sys_wait (wait_ret env)],
         rest)"
      using main_pipe_inline_parent_run [OF v(1,2), of env rest] m rd by blast
    have p3: "open_parent_ret env \<noteq> - 1 \<and> fifo_flight fw = int_bytes num @ arr_bytes arr @ rest \<longrightarrow>
         fst (parent_process_fifo env fw) = Returns \<and>
         printed (fst (snd (parent_process_fifo env fw))) = arr \<and>
         (\<exists>es. fst (snd (parent_process_fifo env fw)) =
            [Sys_open, Call_read_all sizeof_int, Sys_malloc (size_bytes num),
             Call_read_all (size_bytes num)] @ map Stdout_int arr @
            [Stdout_newline, Sys_free] @ es) \<and>
         fifo_flight (snd (snd (parent_process_fifo env fw))) = rest \<and>
         FIFO_PATH \<notin> fs_names (snd (snd (parent_process_fifo env fw)))"
    proof
      assume o: "open_parent_ret env \<noteq> - 1 \<and> fifo_flight fw = int_bytes num @ arr_bytes arr @ rest"
      then have o1: "open_parent_ret env \<noteq> - 1"
        and o2: "fifo_flight fw = int_bytes num @ arr_bytes arr @ rest" by simp_all
      from parent_process_fifo_run [OF v o2 o1] m rd
      show "fst (parent_process_fifo env fw) = Returns \<and>
         printed (fst (snd (parent_process_fifo env fw))) = arr \<and>
         (\<exists>es. fst (snd (parent_process_fifo env fw)) =
            [Sys_open, Call_read_all sizeof_int, Sys_malloc (size_bytes num),
             Call_read_all (size_bytes num)] @ map Stdout_int arr @
            [Stdout_newline, Sys_free] @ es) \<and>
         fifo_flight (snd (snd (parent_process_fifo env fw))) = rest \<and>
         FIFO_PATH \<notin> fs_names (snd (snd (parent_process_fifo env fw)))"
        by blast
    qed
    from p1 p2 p3 show "(wait_ret env \<noteq> - 1 \<longrightarrow>
         parent_process_pipe env (int_bytes num @ arr_bytes arr @ rest) =
           (Returns,
            [Call_read_all sizeof_int, Sys_malloc (size_bytes num), Call_read_all (size_bytes num)] @
            map Stdout_int arr @ [Stdout_newline, Sys_free, Sys_wait (wait_ret env)], rest)) \<and>
      main_pipe_inline_parent env (int_bytes num @ arr_bytes arr @ rest) =
        (Returns,
         [Sys_close, Call_read_all sizeof_int, Sys_malloc (size_bytes num),
          Call_read_all (size_bytes num)] @
         map Stdout_int arr @ [Stdout_newline, Sys_free, Sys_close, Sys_wait (wait_ret env)],
         rest) \<and>
      (open_parent_ret env \<noteq> - 1 \<and> fifo_flight fw = int_bytes num @ arr_bytes arr @ rest \<longrightarrow>
         fst (parent_process_fifo env fw) = Returns \<and>
         printed (fst (snd (parent_process_fifo env fw))) = arr \<and>
         (\<exists>es. fst (snd (parent_process_fifo env fw)) =
            [Sys_open, Call_read_all sizeof_int, Sys_malloc (size_bytes num),
             Call_read_all (size_bytes num)] @ map Stdout_int arr @
            [Stdout_newline, Sys_free] @ es) \<and>
         fifo_flight (snd (snd (parent_process_fifo env fw))) = rest \<and>
         FIFO_PATH \<notin> fs_names (snd (snd (parent_process_fifo env fw))))"
      by blast
  qed
  have C: "read_all (sys_read (read_sched env)) (0, flight) sizeof_int = Some (r1, buf1, st1) \<longrightarrow>
      (to_int32 r1 \<noteq> - 1 \<longrightarrow>
         (\<exists>es. fst (snd (parent_process_pipe env flight)) =
            Call_read_all sizeof_int # Sys_malloc (size_bytes (bytes_int buf1)) # es)) \<and>
      (r1 \<noteq> - 1 \<longrightarrow>
         (\<exists>es. fst (snd (main_pipe_inline_parent env flight)) =
            Sys_close # Call_read_all sizeof_int # Sys_malloc (size_bytes (bytes_int buf1)) # es)) \<and>
      (r1 \<noteq> - 1 \<and> open_parent_ret env \<noteq> - 1 \<and> fifo_flight fw = flight \<longrightarrow>
         (\<exists>es. fst (snd (parent_process_fifo env fw)) =
            Sys_open # Call_read_all sizeof_int # Sys_malloc (size_bytes (bytes_int buf1)) # es))"
  proof
    assume r: "read_all (sys_read (read_sched env)) (0, flight) sizeof_int = Some (r1, buf1, st1)"
    have c1: "to_int32 r1 \<noteq> - 1 \<longrightarrow>
         (\<exists>es. fst (snd (parent_process_pipe env flight)) =
            Call_read_all sizeof_int # Sys_malloc (size_bytes (bytes_int buf1)) # es)"
      using parent_process_pipe_unchecked [OF r] by blast
    have c2: "r1 \<noteq> - 1 \<longrightarrow>
         (\<exists>es. fst (snd (main_pipe_inline_parent env flight)) =
            Sys_close # Call_read_all sizeof_int # Sys_malloc (size_bytes (bytes_int buf1)) # es)"
      using main_pipe_inline_parent_unchecked [OF r] by blast
    have c3: "r1 \<noteq> - 1 \<and> open_parent_ret env \<noteq> - 1 \<and> fifo_flight fw = flight \<longrightarrow>
         (\<exists>es. fst (snd (parent_process_fifo env fw)) =
            Sys_open # Call_read_all sizeof_int # Sys_malloc (size_bytes (bytes_int buf1)) # es)"
    proof
      assume h: "r1 \<noteq> - 1 \<and> open_parent_ret env \<noteq> - 1 \<and> fifo_flight fw = flight"
      then have r': "read_all (sys_read (read_sched env)) (0, fifo_flight fw) sizeof_int =
                       Some (r1, buf1, st1)"
        using r by simp
      from h parent_process_fifo_unchecked [OF _ r']
      show "\<exists>es. fst (snd (parent_process_fifo env fw)) =
            Sys_open # Call_read_all sizeof_int # Sys_malloc (size_bytes (bytes_int buf1)) # es"
        by blast
    qed
    from c1 c2 c3 show "(to_int32 r1 \<noteq> - 1 \<longrightarrow>
         (\<exists>es. fst (snd (parent_process_pipe env flight)) =
            Call_read_all sizeof_int # Sys_malloc (size_bytes (bytes_int buf1)) # es)) \<and>
      (r1 \<noteq> - 1 \<longrightarrow>
         (\<exists>es. fst (snd (main_pipe_inline_parent env flight)) =
            Sys_close # Call_read_all sizeof_int # Sys_malloc (size_bytes (bytes_int buf1)) # es)) \<and>
      (r1 \<noteq> - 1 \<and> open_parent_ret env \<noteq> - 1 \<and> fifo_flight fw = flight \<longrightarrow>
         (\<exists>es. fst (snd (parent_process_fifo env fw)) =
            Sys_open # Call_read_all sizeof_int # Sys_malloc (size_bytes (bytes_int buf1)) # es))"
      by blast
  qed
  from A B C show ?thesis by blast
qed

theorem stream_consumers_do_not_validate_count_witness:
  "sint (segment fresh_shm 0) \<le> 0 \<and>
   fst (parent_process_shm ok_env Mapped 3 fresh_shm) = Exits EXIT_FAILURE \<and>
   printed (fst (snd (parent_process_shm ok_env Mapped 3 fresh_shm))) = [] \<and>
   accesses (fst (snd (parent_process_shm ok_env Mapped 3 fresh_shm))) = [] \<and>
   (0::int) \<le> sint (0 :: cint) \<and> sint (0 :: cint) < 2 ^ 29 \<and>
   length ([] :: cint list) = nat (sint (0 :: cint)) \<and>
   malloc_ok ok_env (size_bytes 0) \<and> wait_ret ok_env \<noteq> - 1 \<and> open_parent_ret ok_env \<noteq> - 1 \<and>
   parent_process_pipe ok_env (int_bytes 0 @ arr_bytes [] @ [7]) =
     (Returns,
      [Call_read_all sizeof_int, Sys_malloc (size_bytes 0), Call_read_all (size_bytes 0)] @
      map Stdout_int [] @ [Stdout_newline, Sys_free, Sys_wait (wait_ret ok_env)], [7]) \<and>
   main_pipe_inline_parent ok_env (int_bytes 0 @ arr_bytes [] @ [7]) =
     (Returns,
      [Sys_close, Call_read_all sizeof_int, Sys_malloc (size_bytes 0), Call_read_all (size_bytes 0)] @
      map Stdout_int [] @ [Stdout_newline, Sys_free, Sys_close, Sys_wait (wait_ret ok_env)], [7]) \<and>
   fst (parent_process_fifo ok_env
          \<lparr>fifo_flight = int_bytes 0 @ arr_bytes [] @ [7], fs_names = {FIFO_PATH}\<rparr>) = Returns \<and>
   fifo_flight (snd (snd (parent_process_fifo ok_env
          \<lparr>fifo_flight = int_bytes 0 @ arr_bytes [] @ [7], fs_names = {FIFO_PATH}\<rparr>))) = [7]"
proof -
  have s: "accesses (fst (snd (parent_process_shm ok_env Mapped 3 fresh_shm))) = []"
    by (simp add: parent_process_shm_def ok_env_def fresh_shm_def cleanup_shm_def
          sys_shm_unlink_def)
  have f: "fifo_flight \<lparr>fifo_flight = int_bytes 0 @ arr_bytes [] @ [7], fs_names = {FIFO_PATH}\<rparr> =
             int_bytes 0 @ arr_bytes [] @ [7]"
    by simp
  show ?thesis
    using stream_consumers_do_not_validate_count
            [where env = ok_env and sw = fresh_shm and shm_fd = 3 and num = 0 and arr = "[]"
               and rest = "[7]"
               and fw = "\<lparr>fifo_flight = int_bytes 0 @ arr_bytes [] @ [7], fs_names = {FIFO_PATH}\<rparr>"]
          ok_env_reads s f
    by (simp add: ok_env_def fresh_shm_def)
qed

text \<open>
  C5. A count that is \<open>\<le> 0\<close> or above the transport's limit makes the producer exit with
  \<open>EXIT_FAILURE\<close> before it writes anything: in both pipe programs the bytes in flight
  are unchanged and no \<open>write_all\<close> was called, the FIFO world is unchanged, and the
  shared-memory world is
  unchanged with no slot stored. The limits are 256 for the pipe and FIFO and 255 for the
  segment.
\<close>

theorem producer_rejects_invalid_count_before_any_write:
  "(sint num \<le> 0 \<or> sint num > pipe_limit \<longrightarrow>
      child_process_pipe env (Some num # rest) flight =
        (Exits EXIT_FAILURE, [Stdout ''Enter number of elements: '', Stderr ''0 < num < 257''],
         flight) \<and>
      main_pipe_inline_child env (Some num # rest) flight =
        (Exits EXIT_FAILURE,
         [Sys_close, Stdout ''Enter number of elements: '', Stderr ''0 < num < 257''], flight) \<and>
      fst (child_process_fifo env (Some num # rest) fw) = Exits EXIT_FAILURE \<and>
      snd (snd (child_process_fifo env (Some num # rest) fw)) = fw \<and>
      (\<forall>n. Call_write_all n \<notin> set (fst (snd (child_process_fifo env (Some num # rest) fw))))) \<and>
   (sint num \<le> 0 \<or> sint num > shm_limit \<longrightarrow>
      fst (child_process_shm env ptr shm_fd (Some num # rest) sw) = Exits EXIT_FAILURE \<and>
      snd (snd (child_process_shm env ptr shm_fd (Some num # rest) sw)) = sw \<and>
      accesses (fst (snd (child_process_shm env ptr shm_fd (Some num # rest) sw))) = []) \<and>
   pipe_limit = 256 \<and> shm_limit = 255"
  using child_process_pipe_rejects [of num env rest flight]
        main_pipe_inline_child_rejects [of num env rest flight]
        child_process_fifo_rejects [of num env rest fw]
        child_process_shm_rejects [of num env ptr shm_fd rest sw]
        pipe_limit_eq shm_limit_eq
  by blast

theorem producer_rejects_invalid_count_before_any_write_witness:
  "sint (300 :: cint) > pipe_limit \<and> sint (300 :: cint) > shm_limit \<and>
   child_process_pipe ok_env (Some 300 # [Some 7]) [] =
     (Exits EXIT_FAILURE, [Stdout ''Enter number of elements: '', Stderr ''0 < num < 257''], []) \<and>
   fst (child_process_fifo ok_env (Some 300 # [Some 7]) fresh_fifo) = Exits EXIT_FAILURE \<and>
   snd (snd (child_process_fifo ok_env (Some 300 # [Some 7]) fresh_fifo)) = fresh_fifo \<and>
   fst (child_process_shm ok_env Mapped 3 (Some 300 # [Some 7]) fresh_shm) = Exits EXIT_FAILURE \<and>
   snd (snd (child_process_shm ok_env Mapped 3 (Some 300 # [Some 7]) fresh_shm)) = fresh_shm \<and>
   accesses (fst (snd (child_process_shm ok_env Mapped 3 (Some 300 # [Some 7]) fresh_shm))) = []"
  using producer_rejects_invalid_count_before_any_write
          [where num = 300 and env = ok_env and rest = "[Some 7]" and flight = "[]"
             and fw = fresh_fifo and ptr = Mapped and shm_fd = 3 and sw = fresh_shm]
  by (simp add: pipe_limit_eq shm_limit_eq)

text \<open>
  C8. On every exit path of the child, for every input and environment, the child's trace
  has no unlink of the shared-memory name or of the FIFO path and the namespace it leaves
  is the one it found; the child's cleanup, called with the unlink flag 0, changes nothing
  in the world. The parent is the one that removes the name: every path of the parent that
  does not fault unlinks it.
\<close>

theorem peer_process_never_unlinks:
  "Sys_shm_unlink \<notin> set (fst (snd (child_process_shm env ptr shm_fd inp sw))) \<and>
   shm_names (snd (snd (child_process_shm env ptr shm_fd inp sw))) = shm_names sw \<and>
   snd (cleanup_shm env ptr shm_fd 0 sw) = sw \<and>
   Sys_shm_unlink \<notin> set (fst (cleanup_shm env ptr shm_fd 0 sw)) \<and>
   Sys_unlink \<notin> set (fst (snd (child_process_fifo env inp fw))) \<and>
   fs_names (snd (snd (child_process_fifo env inp fw))) = fs_names fw \<and>
   (fst (parent_process_shm env ptr shm_fd sw) \<noteq> Faults \<longrightarrow>
      Sys_shm_unlink \<in> set (fst (snd (parent_process_shm env ptr shm_fd sw)))) \<and>
   (fst (parent_process_fifo env fw) \<noteq> Faults \<longrightarrow>
      Sys_unlink \<in> set (fst (snd (parent_process_fifo env fw))))"
proof -
  obtain f1 e1 w1 where a: "child_process_shm env ptr shm_fd inp sw = (f1, e1, w1)"
    by (metis surj_pair)
  obtain f2 e2 w2 where b: "child_process_fifo env inp fw = (f2, e2, w2)"
    by (metis surj_pair)
  obtain f3 e3 w3 where c: "parent_process_shm env ptr shm_fd sw = (f3, e3, w3)"
    by (metis surj_pair)
  obtain f4 e4 w4 where d: "parent_process_fifo env fw = (f4, e4, w4)"
    by (metis surj_pair)
  obtain cs w5 where e: "cleanup_shm env ptr shm_fd 0 sw = (cs, w5)" by (metis surj_pair)
  from child_process_shm_paths [OF a] child_process_fifo_paths [OF b]
       parent_process_shm_paths [OF c] parent_process_fifo_paths [OF d] cleanup_shm_keep [OF e]
  show ?thesis unfolding a b c d e by simp
qed

theorem peer_process_never_unlinks_witness:
  "fst (parent_process_shm ok_env Mapped 3 fresh_shm) \<noteq> Faults \<and>
   Sys_shm_unlink \<in> set (fst (snd (parent_process_shm ok_env Mapped 3 fresh_shm))) \<and>
   fst (parent_process_fifo (ok_env\<lparr>open_parent_ret := - 1\<rparr>) fresh_fifo) \<noteq> Faults \<and>
   Sys_unlink \<in> set (fst (snd (parent_process_fifo (ok_env\<lparr>open_parent_ret := - 1\<rparr>) fresh_fifo))) \<and>
   Sys_shm_unlink \<notin> set (fst (snd (child_process_shm ok_env Mapped 3 [Some 1, Some 42] fresh_shm))) \<and>
   Sys_unlink \<notin> set (fst (snd (child_process_fifo ok_env [None] fresh_fifo)))"
  using peer_process_never_unlinks
          [where env = ok_env and ptr = Mapped and shm_fd = 3 and sw = fresh_shm
             and inp = "[Some 1, Some 42]" and fw = fresh_fifo]
        peer_process_never_unlinks
          [where env = "ok_env\<lparr>open_parent_ret := - 1\<rparr>" and ptr = Mapped and shm_fd = 3
             and sw = fresh_shm and inp = "[None]" and fw = fresh_fifo]
  by (simp add: parent_process_shm_def parent_process_fifo_def child_process_fifo_def ok_env_def
        fresh_shm_def fresh_fifo_def cleanup_shm_def cleanup_fifo_def sys_shm_unlink_def
        sys_unlink_def close_fd_def)

text \<open>
  C9. When \<^verbatim>\<open>mkfifo\<close> fails with \<open>EEXIST\<close> (as it does whenever the path is already
  there), \<open>main\<close> goes on to \<^verbatim>\<open>fork\<close> with the namespace unchanged and both roles run
  on the existing entry. Any other failure of \<^verbatim>\<open>mkfifo\<close> ends \<open>main\<close> with
  \<open>EXIT_FAILURE\<close> right there: no fork, no child, nothing else in the trace.
\<close>

theorem fifo_creation_tolerates_only_eexist:
  "(FIFO_PATH \<in> fs_names w \<longrightarrow>
      sys_mkfifo (mkfifo_fail env) FIFO_PATH (fs_names w) = (- 1, Some EEXIST, fs_names w)) \<and>
   (fst (snd (sys_mkfifo (mkfifo_fail env) FIFO_PATH (fs_names w))) = Some EEXIST \<longrightarrow>
      main_fifo env inp w =
        (if fork_ret env = - 1 then
           (case cleanup_fifo w of
              (cs, w') \<Rightarrow>
                ((Exits EXIT_FAILURE, [Sys_mkfifo, Sys_fork, Perror ''fork''] @ cs), None, w'))
         else
           (case after_fork_fifo env 0 inp w of
              (cf, ce, w1) \<Rightarrow>
                (case after_fork_fifo env (fork_ret env) inp w1 of
                   (pf, pe, w2) \<Rightarrow>
                     ((main_return pf, [Sys_mkfifo, Sys_fork] @ pe), Some (main_return cf, ce),
                      w2))))) \<and>
   (fst (sys_mkfifo (mkfifo_fail env) FIFO_PATH (fs_names w)) = - 1 \<and>
    fst (snd (sys_mkfifo (mkfifo_fail env) FIFO_PATH (fs_names w))) \<noteq> Some EEXIST \<longrightarrow>
      main_fifo env inp w = ((Exits EXIT_FAILURE, [Sys_mkfifo, Perror ''mkfifo'']), None, w))"
proof -
  have A: "FIFO_PATH \<in> fs_names w \<longrightarrow>
      sys_mkfifo (mkfifo_fail env) FIFO_PATH (fs_names w) = (- 1, Some EEXIST, fs_names w)"
    by (simp add: sys_mkfifo_def)
  obtain ret err names1 where mk: "sys_mkfifo (mkfifo_fail env) FIFO_PATH (fs_names w) = (ret, err, names1)"
    by (metis surj_pair)
  have keep: "ret = - 1 \<longrightarrow> names1 = fs_names w"
    using mk by (auto simp: sys_mkfifo_def split: if_splits option.splits)
  have ex: "err = Some EEXIST \<longrightarrow> ret = - 1"
    using mk by (auto simp: sys_mkfifo_def split: if_splits option.splits)
  have w: "ret = - 1 \<longrightarrow> w\<lparr>fs_names := names1\<rparr> = w" using keep by simp
  have B: "err = Some EEXIST \<longrightarrow>
      main_fifo env inp w =
        (if fork_ret env = - 1 then
           (case cleanup_fifo w of
              (cs, w') \<Rightarrow>
                ((Exits EXIT_FAILURE, [Sys_mkfifo, Sys_fork, Perror ''fork''] @ cs), None, w'))
         else
           (case after_fork_fifo env 0 inp w of
              (cf, ce, w1) \<Rightarrow>
                (case after_fork_fifo env (fork_ret env) inp w1 of
                   (pf, pe, w2) \<Rightarrow>
                     ((main_return pf, [Sys_mkfifo, Sys_fork] @ pe), Some (main_return cf, ce),
                      w2))))"
    using ex w by (simp add: main_fifo_def mk)
  have C: "ret = - 1 \<and> err \<noteq> Some EEXIST \<longrightarrow>
      main_fifo env inp w = ((Exits EXIT_FAILURE, [Sys_mkfifo, Perror ''mkfifo'']), None, w)"
    using w by (simp add: main_fifo_def mk)
  from A B C show ?thesis unfolding mk by simp
qed

theorem fifo_creation_tolerates_only_eexist_witness:
  "FIFO_PATH \<in> fs_names \<lparr>fifo_flight = [], fs_names = {FIFO_PATH}\<rparr> \<and>
   sys_mkfifo (mkfifo_fail ok_env) FIFO_PATH {FIFO_PATH} = (- 1, Some EEXIST, {FIFO_PATH}) \<and>
   fst (snd (main_fifo ok_env [None] \<lparr>fifo_flight = [], fs_names = {FIFO_PATH}\<rparr>)) =
     Some (Exits EXIT_FAILURE,
           [Sys_open, Stdout ''Enter number of elements: '', Stderr ''Invalid input.'', Sys_close]) \<and>
   fst (sys_mkfifo (Some EACCES) FIFO_PATH {}) = - 1 \<and>
   fst (snd (sys_mkfifo (Some EACCES) FIFO_PATH {})) \<noteq> Some EEXIST \<and>
   main_fifo (ok_env\<lparr>mkfifo_fail := Some EACCES\<rparr>) [None] fresh_fifo =
     ((Exits EXIT_FAILURE, [Sys_mkfifo, Perror ''mkfifo'']), None, fresh_fifo)"
  using fifo_creation_tolerates_only_eexist
          [where env = ok_env and inp = "[None]" and w = "\<lparr>fifo_flight = [], fs_names = {FIFO_PATH}\<rparr>"]
        fifo_creation_tolerates_only_eexist
          [where env = "ok_env\<lparr>mkfifo_fail := Some EACCES\<rparr>" and inp = "[None]" and w = fresh_fifo]
  by (simp add: sys_mkfifo_def ok_env_def fresh_fifo_def after_fork_fifo_def child_process_fifo_def
        close_fd_def main_return_def split: prod.splits)

end
